theory Spec2Isabelle
  imports Main "HOL-Library.Multiset"
begin

section \<open>The yearly overview of calendar-dialogs.tsx\<close>

text \<open>
  The component \<open>YearlyOverview\<close> computes, from the current date and the list of
  completions, a week-major grid of day keys, thirteen month labels, a table of
  completions per day, a colour class per count and the total of the table.
  Dates are JavaScript \<open>Date\<close> values read in local time; the functions
  \<open>subYears\<close>, \<open>eachDayOfInterval\<close>, \<open>getDay\<close> and \<open>format\<close> are those of the
  date-fns library the file imports, modelled on the proleptic Gregorian calendar
  of ECMAScript at the granularity of local calendar days (the time of day plays no
  part in any of the computations below). The local calendar is taken to have every
  day of the Gregorian calendar: a change of time zone that removes a local day is
  not modelled.
\<close>

subsection \<open>Local calendar dates\<close>

text \<open>
  The local fields of a \<open>Date\<close>: \<open>getFullYear\<close>, \<open>getMonth\<close> (0 is January)
  and \<open>getDate\<close> (1 to 31).
\<close>

record date =
  year :: int
  month :: nat
  day :: nat

definition is_leap :: "int \<Rightarrow> bool" where
  "is_leap y = (if y mod 4 = 0 then (if y mod 100 = 0 then y mod 400 = 0 else True) else False)"

definition days_in_month :: "int \<Rightarrow> nat \<Rightarrow> nat" where
  "days_in_month y m =
     (if m = 1 then (if is_leap y then 29 else 28)
      else if m = 3 \<or> m = 5 \<or> m = 8 \<or> m = 10 then 30
      else 31)"

text \<open>Every \<open>Date\<close> that is not the invalid date has fields in these ranges.\<close>

definition valid_date :: "date \<Rightarrow> bool" where
  "valid_date d = (month d < 12 \<and> 1 \<le> day d \<and> day d \<le> days_in_month (year d) (month d))"

text \<open>
  ECMAScript's \<open>DayFromYear\<close>: the day number, counted from 1 January 1970, of the
  first day of year \<open>y\<close>.
\<close>

definition DayFromYear :: "int \<Rightarrow> int" where
  "DayFromYear y =
     365 * (y - 1970) + (y - 1969) div 4 - (y - 1901) div 100 + (y - 1601) div 400"

definition days_before_month :: "int \<Rightarrow> nat \<Rightarrow> nat" where
  "days_before_month y m = sum_list (map (days_in_month y) [0..<m])"

text \<open>
  ECMAScript's \<open>MakeDay\<close> on fields in range: the number of days from
  1 January 1970 to the date.
\<close>

definition day_number :: "date \<Rightarrow> int" where
  "day_number d =
     DayFromYear (year d) + int (days_before_month (year d) (month d)) + int (day d) - 1"

text \<open>\<open>d.setDate(d.getDate() + 1)\<close>: the following calendar day.\<close>

definition next_day :: "date \<Rightarrow> date" where
  "next_day d =
     (if day d < days_in_month (year d) (month d) then d\<lparr>day := day d + 1\<rparr>
      else if month d < 11 then d\<lparr>month := month d + 1, day := 1\<rparr>
      else d\<lparr>year := year d + 1, month := 0, day := 1\<rparr>)"

text \<open>
  \<open>getDay\<close>: ECMAScript's \<open>WeekDay\<close>, 0 for Sunday to 6 for Saturday
  (1 January 1970 was a Thursday).
\<close>

definition getDay :: "date \<Rightarrow> nat" where
  "getDay d = nat ((day_number d + 4) mod 7)"

text \<open>
  \<open>d.setMonth(m)\<close>: ECMAScript's \<open>MakeDay (year, m, date)\<close>. The month is reduced
  into 0..11 with a carry into the year, and the day of the month is counted on from
  the first day of that month, so that a day the month does not have overflows into
  the following month.
\<close>

definition setMonth :: "date \<Rightarrow> int \<Rightarrow> date" where
  "setMonth d m =
     (next_day ^^ (day d - 1))
       \<lparr>year = year d + m div 12, month = nat (m mod 12), day = 1\<rparr>"

text \<open>
  date-fns \<open>addMonths\<close>: the same day of the month \<open>amount\<close> months later, or the
  last day of that month where it is shorter. \<open>addYears\<close> and \<open>subYears\<close> are
  defined through it as in the library.
\<close>

definition addMonths :: "date \<Rightarrow> int \<Rightarrow> date" where
  "addMonths d amount =
     (let desired = int (month d) + amount;
          y = year d + desired div 12;
          m = nat (desired mod 12);
          daysInMonth = days_in_month y m
      in if day d \<ge> daysInMonth then \<lparr>year = y, month = m, day = daysInMonth\<rparr>
         else \<lparr>year = y, month = m, day = day d\<rparr>)"

definition addYears :: "date \<Rightarrow> int \<Rightarrow> date" where
  "addYears d amount = addMonths d (amount * 12)"

definition subYears :: "date \<Rightarrow> int \<Rightarrow> date" where
  "subYears d amount = addYears d (- amount)"

text \<open>
  date-fns \<open>eachDayOfInterval\<close>: the days from the start to the end, both included,
  each one the day after the one before. The code calls it with a start that is not
  after the end; for a start after the end the list here is empty.
\<close>

primrec days_from :: "nat \<Rightarrow> date \<Rightarrow> date list" where
  "days_from 0 d = []"
| "days_from (Suc n) d = d # days_from n (next_day d)"

definition eachDayOfInterval :: "date \<Rightarrow> date \<Rightarrow> date list" where
  "eachDayOfInterval start end_date =
     days_from (nat (day_number end_date - day_number start + 1)) start"

subsection \<open>Formatting\<close>

text \<open>The decimal digits of a number, as \<open>toString\<close> writes them.\<close>

definition digit_char :: "nat \<Rightarrow> char" where
  "digit_char n = ''0123456789'' ! n"

fun digits :: "nat \<Rightarrow> string" where
  "digits n = (if n < 10 then [digit_char n] else digits (n div 10) @ [digit_char (n mod 10)])"

declare digits.simps [simp del]

text \<open>The number a string of decimal digits stands for.\<close>

definition digit_value :: "char \<Rightarrow> nat" where
  "digit_value c = of_char c - 48"

definition decimal_value :: "string \<Rightarrow> nat" where
  "decimal_value s = foldl (\<lambda>a c. 10 * a + digit_value c) 0 s"

text \<open>date-fns \<open>addLeadingZeros\<close> on a number that is not negative.\<close>

definition addLeadingZeros :: "nat \<Rightarrow> nat \<Rightarrow> string" where
  "addLeadingZeros n targetLength =
     (let s = digits n in replicate (targetLength - length s) (CHR ''0'') @ s)"

text \<open>
  The token \<open>yyyy\<close>: the year of the era, so that year 0 (1 BC) prints as 1.
\<close>

definition format_yyyy :: "date \<Rightarrow> string" where
  "format_yyyy d =
     (let signedYear = year d;
          y = (if signedYear > 0 then nat signedYear else nat (1 - signedYear))
      in addLeadingZeros y 4)"

definition format_MM :: "date \<Rightarrow> string" where
  "format_MM d = addLeadingZeros (month d + 1) 2"

definition format_dd :: "date \<Rightarrow> string" where
  "format_dd d = addLeadingZeros (day d) 2"

definition month_names :: "string list" where
  "month_names = [''Jan'', ''Feb'', ''Mar'', ''Apr'', ''May'', ''Jun'',
                  ''Jul'', ''Aug'', ''Sep'', ''Oct'', ''Nov'', ''Dec'']"

definition format_MMM :: "date \<Rightarrow> string" where
  "format_MMM d = month_names ! month d"

text \<open>\<open>format(date, "yyyy-MM-dd")\<close> and \<open>format(date, "MMM yyyy")\<close>.\<close>

definition format_yyyy_MM_dd :: "date \<Rightarrow> string" where
  "format_yyyy_MM_dd d = format_yyyy d @ ''-'' @ format_MM d @ ''-'' @ format_dd d"

definition format_MMM_yyyy :: "date \<Rightarrow> string" where
  "format_MMM_yyyy d = format_MMM d @ '' '' @ format_yyyy d"

subsection \<open>The grid of weeks\<close>

type_synonym week = "string option list"

text \<open>
  The body of \<open>days.forEach\<close>: a full current week is pushed and a new one begun,
  then the day is pushed on the current week. The state is \<open>(weeks, currentWeek)\<close>.
\<close>

definition week_step :: "week list \<times> week \<Rightarrow> string \<Rightarrow> week list \<times> week" where
  "week_step s d =
     (case s of (weeks, currentWeek) \<Rightarrow>
        let (weeks', currentWeek') =
              (if length currentWeek = 7 then (weeks @ [currentWeek], [])
               else (weeks, currentWeek))
        in (weeks', currentWeek' @ [Some d]))"

text \<open>\<open>while (currentWeek.length < 7) currentWeek.push(null)\<close>\<close>

function pad_week :: "week \<Rightarrow> week" where
  "pad_week currentWeek =
     (if length currentWeek < 7 then pad_week (currentWeek @ [None]) else currentWeek)"
  by pat_completeness auto
termination
  by (relation "measure (\<lambda>w. 7 - length w)") auto

declare pad_week.simps [simp del]

definition build_weeks :: "nat \<Rightarrow> string list \<Rightarrow> week list" where
  "build_weeks firstDayOfWeek days =
     (let emptyStartDays = replicate firstDayOfWeek None;
          (weeks, currentWeek) = foldl week_step ([], emptyStartDays) days
      in if length currentWeek > 0 then weeks @ [pad_week currentWeek] else weeks)"

record month_label =
  key :: string
  label :: string

text \<open>The loop \<open>for (let i = 0; i <= 12; i++)\<close> of the month labels.\<close>

definition month_label_at :: "date \<Rightarrow> nat \<Rightarrow> month_label" where
  "month_label_at yearAgo i =
     (let d = setMonth yearAgo (int (month yearAgo) + int i)
      in \<lparr>key = format_MMM_yyyy d, label = format_MMM d\<rparr>)"

definition yearAgo_of :: "date \<Rightarrow> date" where
  "yearAgo_of today = subYears today 1"

definition days_of :: "date \<Rightarrow> string list" where
  "days_of today = map format_yyyy_MM_dd (eachDayOfInterval (yearAgo_of today) today)"

definition weeks_of :: "date \<Rightarrow> week list" where
  "weeks_of today = build_weeks (getDay (yearAgo_of today)) (days_of today)"

definition monthLabels_of :: "date \<Rightarrow> month_label list" where
  "monthLabels_of today = map (month_label_at (yearAgo_of today)) [0..<13]"

subsection \<open>Completion counts\<close>

record completion =
  habitId :: string
  completedAt :: int

text \<open>
  \<open>new Date(completedAt)\<close> read in local time. ECMAScript's \<open>YearFromTime\<close> is
  the largest year whose first day is not after the day; it is searched upwards from
  a year that is not after it. The month and the day of the month are found by
  taking the lengths of the months off the day of the year.
\<close>

definition year_guess :: "int \<Rightarrow> int" where
  "year_guess n = 1970 + (if 0 \<le> n then n div 366 else n div 365)"

function year_from :: "int \<Rightarrow> int \<Rightarrow> int" where
  "year_from n y = (if DayFromYear (y + 1) \<le> n then year_from n (y + 1) else y)"
  by pat_completeness auto
termination
proof (relation "measure (\<lambda>(n, y). nat (n + 1 - DayFromYear (y + 1)))")
  show "wf (measure (\<lambda>(n, y). nat (n + 1 - DayFromYear (y + 1))))"
    by simp
next
  fix n y :: int
  assume le: "DayFromYear (y + 1) \<le> n"
  have a: "(y + 1 - 1969) div 4 \<le> (y + 1 + 1 - 1969) div 4"
    by (rule zdiv_mono1) simp_all
  have "(y + 1 + 1 - 1901) div 100 \<le> (y + 1 - 1901 + 1 * 100) div 100"
    by (rule zdiv_mono1) simp_all
  then have b: "(y + 1 + 1 - 1901) div 100 \<le> (y + 1 - 1901) div 100 + 1"
    by simp
  have c: "(y + 1 - 1601) div 400 \<le> (y + 1 + 1 - 1601) div 400"
    by (rule zdiv_mono1) simp_all
  have "365 * (y + 1 - 1970) + p - q + r < 365 * (y + 1 + 1 - 1970) + p' - q' + r'"
    if "p \<le> p'" "q' \<le> q + 1" "r \<le> r'" for p q r p' q' r' :: int
    using that by simp
  from this [OF a b c] have "DayFromYear (y + 1) < DayFromYear (y + 1 + 1)"
    unfolding DayFromYear_def .
  then show "((n, y + 1), (n, y)) \<in> measure (\<lambda>(n, y). nat (n + 1 - DayFromYear (y + 1)))"
    using le by simp
qed

declare year_from.simps [simp del]

function month_from :: "int \<Rightarrow> nat \<Rightarrow> nat \<Rightarrow> nat \<times> nat" where
  "month_from y m r =
     (if m < 11 \<and> days_in_month y m \<le> r then month_from y (m + 1) (r - days_in_month y m)
      else (m, r))"
  by pat_completeness auto
termination
  by (relation "measure (\<lambda>(y, m, r). 11 - m)") auto

declare month_from.simps [simp del]

definition civil_from_days :: "int \<Rightarrow> date" where
  "civil_from_days n =
     (let y = year_from n (year_guess n);
          (m, r) = month_from y 0 (nat (n - DayFromYear y))
      in \<lparr>year = y, month = m, day = r + 1\<rparr>)"

text \<open>
  \<open>tz\<close> is the offset of local time from UTC, in milliseconds, at an instant.
\<close>

definition msPerDay :: int where
  "msPerDay = 86400000"

definition local_date :: "(int \<Rightarrow> int) \<Rightarrow> int \<Rightarrow> date" where
  "local_date tz t = civil_from_days ((t + tz t) div msPerDay)"

type_synonym counts = "(string \<times> nat) list"

text \<open>
  The object \<open>counts\<close> as the list of its properties in insertion order, which is
  the order \<open>Object.values\<close> reads them in. An assignment to a property that exists
  replaces its value in place; otherwise the property is added at the end.
\<close>

fun assign :: "counts \<Rightarrow> string \<Rightarrow> nat \<Rightarrow> counts" where
  "assign [] k v = [(k, v)]"
| "assign ((k', v') # ps) k v =
     (if k' = k then (k', v) # ps else (k', v') # assign ps k v)"

text \<open>\<open>x || 0\<close> on a property read: \<open>undefined\<close> and 0 both give 0.\<close>

definition or_zero :: "nat option \<Rightarrow> nat" where
  "or_zero x = (case x of None \<Rightarrow> 0 | Some c \<Rightarrow> if c = 0 then 0 else c)"

definition count_step :: "(int \<Rightarrow> int) \<Rightarrow> counts \<Rightarrow> completion \<Rightarrow> counts" where
  "count_step tz counts c =
     (let d = local_date tz (completedAt c);
          dateKey = format_yyyy_MM_dd d
      in assign counts dateKey (or_zero (map_of counts dateKey) + 1))"

text \<open>The key a completion is counted under.\<close>

definition key_of :: "(int \<Rightarrow> int) \<Rightarrow> completion \<Rightarrow> string" where
  "key_of tz c = format_yyyy_MM_dd (local_date tz (completedAt c))"

definition computeCompletionCounts :: "(int \<Rightarrow> int) \<Rightarrow> completion list \<Rightarrow> counts" where
  "computeCompletionCounts tz completions = foldl (count_step tz) [] completions"

text \<open>\<open>Object.values(completionCounts).reduce((sum, count) => sum + count, 0)\<close>\<close>

definition totalCompletions :: "counts \<Rightarrow> nat" where
  "totalCompletions completionCounts = foldl (\<lambda>sum count. sum + count) 0 (map snd completionCounts)"

text \<open>\<open>completionCounts[day] || 0\<close> in \<open>GridCell\<close>.\<close>

definition cell_count :: "counts \<Rightarrow> string \<Rightarrow> nat" where
  "cell_count completionCounts d = or_zero (map_of completionCounts d)"

subsection \<open>Colour classes\<close>

definition getColorClass :: "nat \<Rightarrow> string" where
  "getColorClass cnt =
     (if cnt = 0 then ''bg-neutral-100 dark:bg-neutral-800''
      else if cnt \<le> 2 then ''bg-emerald-200 dark:bg-emerald-500''
      else if cnt \<le> 5 then ''bg-emerald-300 dark:bg-emerald-600''
      else if cnt \<le> 10 then ''bg-emerald-400 dark:bg-emerald-700''
      else ''bg-emerald-500 dark:bg-emerald-800'')"

text \<open>
  The five buckets of the specification's table, in its order, with the class each
  is drawn in; \<open>colorBucketFor_spec\<close> is the table as the specification words it,
  to be compared with \<open>getColorClass\<close>.
\<close>

datatype ColorBucket = Empty | Low | Medium | High | Max

definition colorBucketFor_spec :: "nat \<Rightarrow> ColorBucket" where
  "colorBucketFor_spec n =
     (if n = 0 then Empty
      else if 1 \<le> n \<and> n \<le> 2 then Low
      else if 3 \<le> n \<and> n \<le> 5 then Medium
      else if 6 \<le> n \<and> n \<le> 10 then High
      else Max)"

primrec bucket_class :: "ColorBucket \<Rightarrow> string" where
  "bucket_class Empty = ''bg-neutral-100 dark:bg-neutral-800''"
| "bucket_class Low = ''bg-emerald-200 dark:bg-emerald-500''"
| "bucket_class Medium = ''bg-emerald-300 dark:bg-emerald-600''"
| "bucket_class High = ''bg-emerald-400 dark:bg-emerald-700''"
| "bucket_class Max = ''bg-emerald-500 dark:bg-emerald-800''"

primrec bucket_rank :: "ColorBucket \<Rightarrow> nat" where
  "bucket_rank Empty = 0"
| "bucket_rank Low = 1"
| "bucket_rank Medium = 2"
| "bucket_rank High = 3"
| "bucket_rank Max = 4"

section \<open>Properties\<close>

subsection \<open>Calendar arithmetic\<close>

lemma div_step:
  fixes a k :: int
  assumes "0 < k"
  shows "(a + 1) div k = a div k + (if (a + 1) mod k = 0 then 1 else 0)"
proof -
  define q r where "q = a div k" and "r = a mod k"
  have a: "a = k * q + r" and r: "0 \<le> r" "r < k"
    using assms by (simp_all add: q_def r_def)
  show ?thesis
  proof (cases "r + 1 < k")
    case True
    have e: "a + 1 = k * q + (r + 1)" using a by simp
    have "(a + 1) div k = q"
      by (rule int_div_pos_eq [OF e]) (use r True in auto)
    moreover have "(a + 1) mod k = r + 1"
      by (rule int_mod_pos_eq [OF e]) (use r True in auto)
    ultimately show ?thesis using r by (simp add: q_def)
  next
    case False
    then have e: "a + 1 = k * (q + 1) + 0" using a r by (simp add: algebra_simps)
    have "(a + 1) div k = q + 1"
      by (rule int_div_pos_eq [OF e]) (use assms in auto)
    moreover have "(a + 1) mod k = 0"
      by (rule int_mod_pos_eq [OF e]) (use assms in auto)
    ultimately show ?thesis by (simp add: q_def)
  qed
qed

lemma mod4_shift: "((y::int) - 1969 + 1) mod 4 = y mod 4"
proof -
  have "y - 1969 + 1 = y + (- 492) * 4" by simp
  then show ?thesis by (simp only: mod_mult_self1)
qed

lemma mod100_shift: "((y::int) - 1901 + 1) mod 100 = y mod 100"
proof -
  have "y - 1901 + 1 = y + (- 19) * 100" by simp
  then show ?thesis by (simp only: mod_mult_self1)
qed

lemma mod400_shift: "((y::int) - 1601 + 1) mod 400 = y mod 400"
proof -
  have "y - 1601 + 1 = y + (- 4) * 400" by simp
  then show ?thesis by (simp only: mod_mult_self1)
qed

lemma DayFromYear_succ:
  "DayFromYear (y + 1) = DayFromYear y + (if is_leap y then 366 else 365)"
proof -
  have a: "(y + 1 - 1969) div 4 = (y - 1969) div 4 + (if y mod 4 = 0 then 1 else 0)"
    using div_step [of 4 "y - 1969"] by (simp only: mod4_shift) (simp add: algebra_simps)
  have b: "(y + 1 - 1901) div 100 = (y - 1901) div 100 + (if y mod 100 = 0 then 1 else 0)"
    using div_step [of 100 "y - 1901"] by (simp only: mod100_shift) (simp add: algebra_simps)
  have c: "(y + 1 - 1601) div 400 = (y - 1601) div 400 + (if y mod 400 = 0 then 1 else 0)"
    using div_step [of 400 "y - 1601"] by (simp only: mod400_shift) (simp add: algebra_simps)
  have d: "y mod 4 = 0" if "y mod 100 = 0"
  proof -
    have "y mod 100 mod 4 = y mod 4" by (rule mod_mod_cancel) simp
    then show ?thesis using that by simp
  qed
  have e: "y mod 100 = 0" if "y mod 400 = 0"
  proof -
    have "y mod 400 mod 100 = y mod 100" by (rule mod_mod_cancel) simp
    then show ?thesis using that by simp
  qed
  show ?thesis
    unfolding DayFromYear_def is_leap_def a b c using d e by auto
qed

lemma leap_mod4: "is_leap y \<Longrightarrow> y mod 4 = 0"
  by (simp add: is_leap_def split: if_splits)

lemma not_leap_before: "is_leap y \<Longrightarrow> \<not> is_leap (y - 1)"
proof
  assume "is_leap y" "is_leap (y - 1)"
  then have "y mod 4 = 0" "(y - 1) mod 4 = 0" by (simp_all add: leap_mod4)
  then show False by presburger
qed

lemma length_days_from: "length (days_from n d) = n"
  by (induction n arbitrary: d) auto

lemma upt_12: "[0..<12] = [0,1,2,3,4,5,6,7,8,9,10,11::nat]"
  by (simp add: upt_rec)

lemma month_cases: "m < 12 \<Longrightarrow> m \<in> {0, 1, 2, 3, 4, 5, 6, 7, 8, 9, 10, 11::nat}"
  by (simp only: insert_iff empty_iff) arith

lemma days_before_month_Suc:
  "days_before_month y (Suc m) = days_before_month y m + days_in_month y m"
  by (simp add: days_before_month_def)

lemma days_before_month_take:
  "m \<le> 12 \<Longrightarrow> days_before_month y m =
      sum_list (map (days_in_month y) (take m [0,1,2,3,4,5,6,7,8,9,10,11]))"
proof -
  assume "m \<le> 12"
  then have "take m [0..<12] = [0..<m]" by simp
  then show ?thesis unfolding days_before_month_def upt_12 by simp
qed

lemma days_before_month_12:
  "days_before_month y 12 = (if is_leap y then 366 else 365)"
  by (simp add: days_before_month_take days_in_month_def)

lemma days_before_month_closed:
  "m < 12 \<Longrightarrow> days_before_month y m =
     [0, 31, 59, 90, 120, 151, 181, 212, 243, 273, 304, 334] ! m +
     (if 2 \<le> m \<and> is_leap y then 1 else 0)"
  by (drule month_cases) (auto simp: days_before_month_take days_in_month_def)

lemma days_in_month_pos: "28 \<le> days_in_month y m"
  by (simp add: days_in_month_def)

lemma valid_next_day: "valid_date d \<Longrightarrow> valid_date (next_day d)"
  using days_in_month_pos [of "year d" "Suc (month d)"] days_in_month_pos [of "year d + 1" 0]
  by (auto simp: valid_date_def next_day_def)

lemma day_number_next_day:
  assumes "valid_date d"
  shows "day_number (next_day d) = day_number d + 1"
proof (cases "day d < days_in_month (year d) (month d)")
  case True
  then show ?thesis by (simp add: next_day_def day_number_def)
next
  case False
  then have last: "day d = days_in_month (year d) (month d)"
    using assms by (simp add: valid_date_def)
  show ?thesis
  proof (cases "month d < 11")
    case True
    then show ?thesis
      using False last by (simp add: next_day_def day_number_def days_before_month_Suc)
  next
    case False
    then have m: "month d = 11" using assms by (simp add: valid_date_def)
    have "int (days_before_month (year d) 11) + int (day d) = (if is_leap (year d) then 366 else 365)"
      using last m by (simp add: days_before_month_closed days_in_month_def)
    then show ?thesis
      using last m DayFromYear_succ [of "year d"]
      by (simp add: next_day_def day_number_def days_before_month_take)
  qed
qed

lemma yearAgo_eq:
  assumes "valid_date today"
  shows "yearAgo_of today =
     \<lparr>year = year today - 1, month = month today,
      day = min (day today) (days_in_month (year today - 1) (month today))\<rparr>"
proof -
  have m: "int (month today) < 12" using assms by (simp add: valid_date_def)
  have "(int (month today) - 12) div 12 = - 1"
    using m by (simp add: div_pos_neg_trivial div_eq_minus1 zdiv_zminus1_eq_if)
  moreover have "(int (month today) - 12) mod 12 = int (month today)"
    using m by (metis add.commute diff_add_cancel mod_add_self1 mod_pos_pos_trivial of_nat_0_le_iff)
  ultimately show ?thesis
    by (simp add: yearAgo_of_def subYears_def addYears_def addMonths_def Let_def min_def)
qed

lemma valid_yearAgo: "valid_date today \<Longrightarrow> valid_date (yearAgo_of today)"
  using days_in_month_pos [of "year today - 1" "month today"]
  by (simp add: yearAgo_eq) (simp add: valid_date_def min_def)

lemma year_span:
  assumes "valid_date today"
  shows "day_number today - day_number (yearAgo_of today) = 365 \<or>
         day_number today - day_number (yearAgo_of today) = 366"
proof -
  have m: "month today < 12" and d: "1 \<le> day today" "day today \<le> days_in_month (year today) (month today)"
    using assms by (simp_all add: valid_date_def)
  have y: "DayFromYear (year today) = DayFromYear (year today - 1) + (if is_leap (year today - 1) then 366 else 365)"
    using DayFromYear_succ [of "year today - 1"] by simp
  have nl: "\<not> (is_leap (year today) \<and> is_leap (year today - 1))"
    using not_leap_before by blast
  show ?thesis
    using d nl unfolding yearAgo_eq [OF assms] day_number_def y
    by (simp add: days_before_month_closed [OF m] days_in_month_def min_def split: if_splits)
qed

subsection \<open>Evaluation on concrete dates\<close>

lemma digits_small: "n < 10 \<Longrightarrow> digits n = [digit_char n]"
  by (simp add: digits.simps [of n])

lemma digits_large: "10 \<le> n \<Longrightarrow> digits n = digits (n div 10) @ [digit_char (n mod 10)]"
  by (simp add: digits.simps [of n])

lemmas format_eval = format_yyyy_MM_dd_def format_MMM_yyyy_def format_yyyy_def format_MM_def
  format_dd_def format_MMM_def month_names_def addLeadingZeros_def digits_small digits_large
  digit_char_def Let_def

lemmas date_eval = yearAgo_of_def subYears_def addYears_def addMonths_def days_in_month_def
  is_leap_def day_number_def DayFromYear_def days_before_month_take getDay_def valid_date_def
  next_day_def Let_def

lemma funpow_numeral: "(f ^^ numeral k) x = f ((f ^^ pred_numeral k) x)"
  by (simp add: numeral_eq_Suc)

lemma days_from_numeral:
  "days_from (numeral k) d = d # days_from (pred_numeral k) (next_day d)"
  by (simp add: numeral_eq_Suc)

subsection \<open>The table of counts\<close>


lemma or_zero_simps: "or_zero None = 0" "or_zero (Some c) = c"
  by (simp_all add: or_zero_def)

lemma map_of_assign: "map_of (assign ps k v) = (map_of ps)(k \<mapsto> v)"
  by (induction ps) (auto simp: fun_eq_iff)

lemma keys_assign: "fst ` set (assign ps k v) = insert k (fst ` set ps)"
  by (induction ps) force+

lemma distinct_assign: "distinct (map fst ps) \<Longrightarrow> distinct (map fst (assign ps k v))"
  by (induction ps) (auto simp: keys_assign)

lemma values_assign: "(k', v') \<in> set (assign ps k v) \<Longrightarrow> (k', v') \<in> set ps \<or> v' = v"
  by (induction ps) (auto split: if_splits)

lemma sum_assign_incr:
  "sum_list (map snd (assign ps k (Suc (or_zero (map_of ps k))))) = Suc (sum_list (map snd ps))"
  by (induction ps) (auto simp: or_zero_simps)

lemma count_step_key: "count_step tz acc c = assign acc (key_of tz c) (or_zero (map_of acc (key_of tz c)) + 1)"
  by (simp add: count_step_def key_of_def Let_def)

lemma foldl_add_sum: "foldl (\<lambda>sum c. sum + c) a xs = a + sum_list (xs::nat list)"
  by (induction xs arbitrary: a) auto

lemma total_sum_list: "totalCompletions ps = sum_list (map snd ps)"
  by (simp add: totalCompletions_def foldl_add_sum)

lemma sum_fold_counts:
  "sum_list (map snd (foldl (count_step tz) acc cs)) = sum_list (map snd acc) + length cs"
  by (induction cs arbitrary: acc) (auto simp: count_step_key sum_assign_incr)

text \<open>Two completions on 15 March 2024, local time two hours ahead of UTC.\<close>

lemma local_date_2024_03_15:
  "local_date (\<lambda>t. 7200000) 1710500000000 = \<lparr>year = 2024, month = 2, day = 15\<rparr>"
  "local_date (\<lambda>t. 7200000) 1710510000000 = \<lparr>year = 2024, month = 2, day = 15\<rparr>"
  by code_simp+

lemma counts_2024_03_15:
  "computeCompletionCounts (\<lambda>t. 7200000)
     [\<lparr>habitId = ''h1'', completedAt = 1710500000000\<rparr>,
      \<lparr>habitId = ''h2'', completedAt = 1710510000000\<rparr>] = [(''2024-03-15'', 2)]"
  by (simp add: computeCompletionCounts_def count_step_def local_date_2024_03_15 or_zero_def
      format_eval)

text \<open>
  C1: for every sequence of completions, the sum of the values of the table of
  counts is the length of the sequence.
\<close>

theorem total_eq_length: "totalCompletions (computeCompletionCounts tz completions) = length completions"
  by (simp add: total_sum_list computeCompletionCounts_def sum_fold_counts)

lemma lookup_fold_counts:
  "or_zero (map_of (foldl (count_step tz) acc cs) k) =
     or_zero (map_of acc k) + length (filter (\<lambda>c. key_of tz c = k) cs)"
  by (induction cs arbitrary: acc) (auto simp: count_step_key map_of_assign or_zero_simps)

lemma keys_fold_counts:
  "fst ` set (foldl (count_step tz) acc cs) = fst ` set acc \<union> key_of tz ` set cs"
  by (induction cs arbitrary: acc) (auto simp: count_step_key keys_assign)

lemma distinct_fold_counts:
  "distinct (map fst acc) \<Longrightarrow> distinct (map fst (foldl (count_step tz) acc cs))"
  by (induction cs arbitrary: acc) (auto simp: count_step_key distinct_assign)

lemma positive_fold_counts:
  "\<forall>p \<in> set acc. 1 \<le> snd p \<Longrightarrow> \<forall>p \<in> set (foldl (count_step tz) acc cs). 1 \<le> snd p"
proof (induction cs arbitrary: acc)
  case Nil
  then show ?case by simp
next
  case (Cons c cs)
  have "\<forall>p \<in> set (count_step tz acc c). 1 \<le> snd p"
    using Cons.prems values_assign by (fastforce simp: count_step_key)
  then show ?case using Cons.IH by simp
qed

lemma map_of_counts:
  "map_of (computeCompletionCounts tz cs) k =
     (if k \<in> key_of tz ` set cs then Some (length (filter (\<lambda>c. key_of tz c = k) cs)) else None)"
proof (cases "map_of (computeCompletionCounts tz cs) k")
  case None
  then have "k \<notin> fst ` set (computeCompletionCounts tz cs)"
    by (simp add: map_of_eq_None_iff)
  then show ?thesis using None
    by (simp add: computeCompletionCounts_def keys_fold_counts)
next
  case (Some v)
  then have "k \<in> fst ` set (computeCompletionCounts tz cs)"
    by (metis map_of_eq_None_iff option.distinct(1))
  then have k: "k \<in> key_of tz ` set cs"
    by (simp add: computeCompletionCounts_def keys_fold_counts)
  have "or_zero (map_of (computeCompletionCounts tz cs) k) = length (filter (\<lambda>c. key_of tz c = k) cs)"
    by (simp add: computeCompletionCounts_def lookup_fold_counts or_zero_simps)
  then show ?thesis using Some k by (simp add: or_zero_simps)
qed

text \<open>
  C8: two sequences of completions that are permutations of one another give the
  same mapping from day keys to counts: the same count is read under every key, and
  the two tables have the same entries (the order in which the keys were first
  written may differ).
\<close>

theorem counts_permutation_invariant:
  "mset cs = mset cs' \<Longrightarrow>
     map_of (computeCompletionCounts tz cs) = map_of (computeCompletionCounts tz cs') \<and>
     set (computeCompletionCounts tz cs) = set (computeCompletionCounts tz cs')"
proof -
  assume eq: "mset cs = mset cs'"
  have m: "map_of (computeCompletionCounts tz cs) = map_of (computeCompletionCounts tz cs')"
  proof
    fix k
    have s: "set cs = set cs'" using eq by (rule mset_eq_setD)
    have "mset (filter (\<lambda>c. key_of tz c = k) cs) = mset (filter (\<lambda>c. key_of tz c = k) cs')"
      using eq by (metis mset_filter)
    then have "length (filter (\<lambda>c. key_of tz c = k) cs) = length (filter (\<lambda>c. key_of tz c = k) cs')"
      by (rule mset_eq_length)
    then show "map_of (computeCompletionCounts tz cs) k = map_of (computeCompletionCounts tz cs') k"
      using s by (simp add: map_of_counts)
  qed
  have "distinct (map fst (computeCompletionCounts tz xs))" for xs
    unfolding computeCompletionCounts_def by (rule distinct_fold_counts) simp
  then have "set (computeCompletionCounts tz cs) = set (computeCompletionCounts tz cs')"
    using m by (simp add: map_of_inject_set)
  with m show ?thesis by simp
qed

theorem counts_permutation_invariant_witness:
  "mset [\<lparr>habitId = ''h1'', completedAt = 1710500000000\<rparr>,
         \<lparr>habitId = ''h2'', completedAt = 1700000000000\<rparr>] =
   mset [\<lparr>habitId = ''h2'', completedAt = 1700000000000\<rparr>,
         \<lparr>habitId = ''h1'', completedAt = 1710500000000\<rparr>] \<and>
   map_of (computeCompletionCounts (\<lambda>t. 0)
        [\<lparr>habitId = ''h1'', completedAt = 1710500000000\<rparr>,
         \<lparr>habitId = ''h2'', completedAt = 1700000000000\<rparr>]) =
   map_of (computeCompletionCounts (\<lambda>t. 0)
        [\<lparr>habitId = ''h2'', completedAt = 1700000000000\<rparr>,
         \<lparr>habitId = ''h1'', completedAt = 1710500000000\<rparr>]) \<and>
   computeCompletionCounts (\<lambda>t. 0)
        [\<lparr>habitId = ''h1'', completedAt = 1710500000000\<rparr>,
         \<lparr>habitId = ''h2'', completedAt = 1700000000000\<rparr>] =
     [(''2024-03-15'', 1), (''2023-11-14'', 1)] \<and>
   computeCompletionCounts (\<lambda>t. 0)
        [\<lparr>habitId = ''h2'', completedAt = 1700000000000\<rparr>,
         \<lparr>habitId = ''h1'', completedAt = 1710500000000\<rparr>] =
     [(''2023-11-14'', 1), (''2024-03-15'', 1)]"
proof -
  let ?a = "\<lparr>habitId = ''h1'', completedAt = 1710500000000\<rparr>"
  let ?b = "\<lparr>habitId = ''h2'', completedAt = 1700000000000\<rparr>"
  have p: "mset [?a, ?b] = mset [?b, ?a]" by simp
  have d: "local_date (\<lambda>t. 0) 1710500000000 = \<lparr>year = 2024, month = 2, day = 15\<rparr>"
    "local_date (\<lambda>t. 0) 1700000000000 = \<lparr>year = 2023, month = 10, day = 14\<rparr>"
    by code_simp+
  have e1: "computeCompletionCounts (\<lambda>t. 0) [?a, ?b] = [(''2024-03-15'', 1), (''2023-11-14'', 1)]"
    by (simp add: computeCompletionCounts_def count_step_def d or_zero_def format_eval)
  have e2: "computeCompletionCounts (\<lambda>t. 0) [?b, ?a] = [(''2023-11-14'', 1), (''2024-03-15'', 1)]"
    by (simp add: computeCompletionCounts_def count_step_def d or_zero_def format_eval)
  have "map_of (computeCompletionCounts (\<lambda>t. 0) [?a, ?b]) =
      map_of (computeCompletionCounts (\<lambda>t. 0) [?b, ?a])"
    using counts_permutation_invariant [OF p, of "\<lambda>t. 0"] by blast
  then show ?thesis using p e1 e2 by simp
qed

text \<open>
  C10: every count stored in the table is at least 1, and the defaulting lookup of
  the grid cell gives 0 exactly for the keys that are absent from the table.
\<close>

theorem stored_counts_positive:
  "(\<forall>p \<in> set (computeCompletionCounts tz cs). 1 \<le> snd p) \<and>
   (\<forall>k. (cell_count (computeCompletionCounts tz cs) k = 0) =
        (k \<notin> fst ` set (computeCompletionCounts tz cs)))"
proof (intro conjI allI)
  show pos: "\<forall>p \<in> set (computeCompletionCounts tz cs). 1 \<le> snd p"
    unfolding computeCompletionCounts_def by (rule positive_fold_counts) simp
  fix k
  show "(cell_count (computeCompletionCounts tz cs) k = 0) =
        (k \<notin> fst ` set (computeCompletionCounts tz cs))"
  proof (cases "map_of (computeCompletionCounts tz cs) k")
    case None
    then have "k \<notin> fst ` set (computeCompletionCounts tz cs)"
      by (simp add: map_of_eq_None_iff)
    then show ?thesis using None by (simp add: cell_count_def or_zero_simps)
  next
    case (Some v)
    then have "(k, v) \<in> set (computeCompletionCounts tz cs)" by (rule map_of_SomeD)
    then have "1 \<le> v" "k \<in> fst ` set (computeCompletionCounts tz cs)"
      using pos by force+
    then show ?thesis using Some by (simp add: cell_count_def or_zero_simps)
  qed
qed

theorem stored_counts_positive_witness:
  "(''2024-03-15'', 2) \<in> set (computeCompletionCounts (\<lambda>t. 7200000)
       [\<lparr>habitId = ''h1'', completedAt = 1710500000000\<rparr>,
        \<lparr>habitId = ''h2'', completedAt = 1710510000000\<rparr>]) \<and>
   1 \<le> snd (''2024-03-15'', 2::nat) \<and>
   cell_count (computeCompletionCounts (\<lambda>t. 7200000)
       [\<lparr>habitId = ''h1'', completedAt = 1710500000000\<rparr>,
        \<lparr>habitId = ''h2'', completedAt = 1710510000000\<rparr>]) ''2024-03-16'' = 0"
proof -
  let ?cs = "[\<lparr>habitId = ''h1'', completedAt = 1710500000000\<rparr>,
        \<lparr>habitId = ''h2'', completedAt = 1710510000000\<rparr>]"
  have ev: "computeCompletionCounts (\<lambda>t. 7200000) ?cs = [(''2024-03-15'', 2)]"
    by (rule counts_2024_03_15)
  have "''2024-03-16'' \<notin> fst ` set (computeCompletionCounts (\<lambda>t. 7200000) ?cs)"
    by (simp add: ev)
  then have "cell_count (computeCompletionCounts (\<lambda>t. 7200000) ?cs) ''2024-03-16'' = 0"
    using stored_counts_positive [of "\<lambda>t. 7200000" ?cs] by blast
  then show ?thesis by (simp add: ev)
qed

subsection \<open>Colour classes\<close>

text \<open>
  C2: on every count \<open>getColorClass\<close> returns the class of the bucket the table
  assigns (0 empty, 1-2 low, 3-5 medium, 6-10 high, 11 and more max); the five
  classes are pairwise different, so the bucket is unique and each class is returned
  on the counts of its range only; and a larger count never has a lower bucket.
\<close>

theorem getColorClass_buckets:
  "getColorClass n = bucket_class (colorBucketFor_spec n) \<and>
   (bucket_class b = bucket_class b' \<longrightarrow> b = b') \<and>
   (getColorClass n = bucket_class Empty) = (n = 0) \<and>
   (getColorClass n = bucket_class Low) = (1 \<le> n \<and> n \<le> 2) \<and>
   (getColorClass n = bucket_class Medium) = (3 \<le> n \<and> n \<le> 5) \<and>
   (getColorClass n = bucket_class High) = (6 \<le> n \<and> n \<le> 10) \<and>
   (getColorClass n = bucket_class Max) = (11 \<le> n) \<and>
   (m \<le> n \<longrightarrow> bucket_rank (colorBucketFor_spec m) \<le> bucket_rank (colorBucketFor_spec n))"
proof (intro conjI impI)
  show "getColorClass n = bucket_class (colorBucketFor_spec n)"
    by (simp add: getColorClass_def colorBucketFor_spec_def)
  show "b = b'" if "bucket_class b = bucket_class b'"
    using that by (cases b; cases b'; simp)
  show "(getColorClass n = bucket_class Empty) = (n = 0)"
    by (simp add: getColorClass_def)
  show "(getColorClass n = bucket_class Low) = (1 \<le> n \<and> n \<le> 2)"
    by (auto simp: getColorClass_def)
  show "(getColorClass n = bucket_class Medium) = (3 \<le> n \<and> n \<le> 5)"
    by (auto simp: getColorClass_def)
  show "(getColorClass n = bucket_class High) = (6 \<le> n \<and> n \<le> 10)"
    by (auto simp: getColorClass_def)
  show "(getColorClass n = bucket_class Max) = (11 \<le> n)"
    by (auto simp: getColorClass_def)
  show "bucket_rank (colorBucketFor_spec m) \<le> bucket_rank (colorBucketFor_spec n)" if "m \<le> n"
    using that by (simp add: colorBucketFor_spec_def)
qed

theorem getColorClass_buckets_witness:
  "(5::nat) \<le> 6 \<and> bucket_class Medium = bucket_class Medium \<and>
   map getColorClass [0, 1, 2, 3, 5, 6, 10, 11, 1000] =
     map bucket_class [Empty, Low, Low, Medium, Medium, High, High, Max, Max] \<and>
   bucket_rank (colorBucketFor_spec 5) \<le> bucket_rank (colorBucketFor_spec 6)"
proof -
  have "bucket_rank (colorBucketFor_spec 5) \<le> bucket_rank (colorBucketFor_spec 6)"
    using getColorClass_buckets [of 6 Medium Medium 5] by simp
  then show ?thesis by (simp add: getColorClass_def)
qed

subsection \<open>The grid of weeks\<close>

lemma pad_week_eq: "pad_week w = w @ replicate (7 - length w) None"
proof (induction w rule: pad_week.induct)
  case (1 w)
  show ?case
  proof (cases "length w < 7")
    case True
    then have "pad_week w = (w @ [None]) @ replicate (7 - length (w @ [None])) None"
      using "1" by (simp add: pad_week.simps [of w])
    also have "\<dots> = w @ replicate (Suc (7 - length (w @ [None]))) None"
      by (simp add: replicate_append_same)
    also have "Suc (7 - length (w @ [None])) = 7 - length w"
      using True by simp
    finally show ?thesis .
  next
    case False
    then show ?thesis by (simp add: pad_week.simps [of w])
  qed
qed

lemma week_step_nonempty: "snd (week_step s d) \<noteq> []"
  by (cases s) (simp add: week_step_def)

lemma week_fold_nonempty: "ds \<noteq> [] \<Longrightarrow> snd (foldl week_step s ds) \<noteq> []"
  by (cases ds rule: rev_cases) (simp_all add: week_step_nonempty)

lemma week_fold:
  "\<forall>w \<in> set ws. length w = 7 \<Longrightarrow> length cur \<le> 7 \<Longrightarrow>
   foldl week_step (ws, cur) ds = (ws', cur') \<Longrightarrow>
     (\<forall>w \<in> set ws'. length w = 7) \<and> length cur' \<le> 7 \<and>
     concat ws' @ cur' = concat ws @ cur @ map Some ds"
proof (induction ds arbitrary: ws cur)
  case Nil
  then show ?case by simp
next
  case (Cons d ds)
  show ?case
  proof (cases "length cur = 7")
    case True
    then have st: "week_step (ws, cur) d = (ws @ [cur], [Some d])"
      by (simp add: week_step_def)
    have "(\<forall>w \<in> set ws'. length w = 7) \<and> length cur' \<le> 7 \<and>
        concat ws' @ cur' = concat (ws @ [cur]) @ [Some d] @ map Some ds"
      by (rule Cons.IH) (use Cons.prems True st in auto)
    then show ?thesis by simp
  next
    case False
    then have st: "week_step (ws, cur) d = (ws, cur @ [Some d])"
      by (simp add: week_step_def)
    have "(\<forall>w \<in> set ws'. length w = 7) \<and> length cur' \<le> 7 \<and>
        concat ws' @ cur' = concat ws @ (cur @ [Some d]) @ map Some ds"
      by (rule Cons.IH) (use Cons.prems False st in auto)
    then show ?thesis by simp
  qed
qed

text \<open>The grid read row after row: the padding, the days, and less than a week of padding.\<close>

lemma build_weeks_flat:
  assumes "p \<le> 7"
  shows "(\<forall>w \<in> set (build_weeks p ds). length w = 7) \<and>
         (\<exists>k<7. concat (build_weeks p ds) = replicate p None @ map Some ds @ replicate k None)"
proof -
  obtain ws cur where f: "foldl week_step ([], replicate p None) ds = (ws, cur)"
    by (cases "foldl week_step ([], replicate p None) ds") auto
  have inv: "(\<forall>w \<in> set ws. length w = 7) \<and> length cur \<le> 7 \<and>
     concat ws @ cur = concat [] @ replicate p None @ map Some ds"
    by (rule week_fold [OF _ _ f]) (use assms in auto)
  show ?thesis
  proof (cases "cur = []")
    case True
    then have "build_weeks p ds = ws" by (simp add: build_weeks_def f)
    moreover have "concat ws = replicate p None @ map Some ds @ replicate 0 None"
      using inv True by simp
    ultimately show ?thesis using inv by (metis zero_less_numeral)
  next
    case False
    then have b: "build_weeks p ds = ws @ [cur @ replicate (7 - length cur) None]"
      by (simp add: build_weeks_def f pad_week_eq)
    have "7 - length cur < 7" using False by (cases cur) auto
    moreover have "concat (build_weeks p ds) =
        replicate p None @ map Some ds @ replicate (7 - length cur) None"
      using inv by (simp add: b)
    moreover have "\<forall>w \<in> set (build_weeks p ds). length w = 7"
      using inv by (auto simp: b)
    ultimately show ?thesis by blast
  qed
qed

lemma build_weeks_nonempty: "ds \<noteq> [] \<Longrightarrow> build_weeks p ds \<noteq> []"
proof -
  assume ne: "ds \<noteq> []"
  obtain ws cur where f: "foldl week_step ([], replicate p None) ds = (ws, cur)"
    by (cases "foldl week_step ([], replicate p None) ds") auto
  have "cur \<noteq> []" using week_fold_nonempty [OF ne, of "([], replicate p None)"] f by simp
  then show ?thesis by (simp add: build_weeks_def f)
qed

text \<open>Rows of one length are the slices of their concatenation.\<close>

lemma nth_rows:
  "\<forall>w \<in> set ws. length w = n \<Longrightarrow> i < length ws \<Longrightarrow>
     ws ! i = take n (drop (n * i) (concat ws))"
proof (induction ws arbitrary: i)
  case Nil
  then show ?case by simp
next
  case (Cons w ws)
  show ?case
  proof (cases i)
    case 0
    then show ?thesis using Cons.prems by simp
  next
    case (Suc j)
    then have "(w # ws) ! i = take n (drop (n * j) (concat ws))"
      using Cons by simp
    then show ?thesis using Cons.prems Suc by simp
  qed
qed

lemma length_concat_rows:
  "\<forall>w \<in> set ws. length w = n \<Longrightarrow> length (concat ws) = n * length ws"
  by (induction ws) auto

lemma getDay_less: "getDay d < 7"
  by (simp add: getDay_def nat_less_iff)

lemma take_days_from: "take k (days_from n d) = days_from (min k n) d"
proof (induction n arbitrary: k d)
  case 0
  then show ?case by simp
next
  case (Suc n)
  then show ?case by (cases k) simp_all
qed

lemma length_days_of:
  assumes "valid_date today"
  shows "length (days_of today) = 366 \<or> length (days_of today) = 367"
  using year_span [OF assms]
  by (auto simp: days_of_def eachDayOfInterval_def length_days_from)

lemma take_days_of:
  assumes "valid_date today" "k \<le> 366"
  shows "take k (days_of today) = map format_yyyy_MM_dd (days_from k (yearAgo_of today))"
proof -
  have "k \<le> nat (day_number today - day_number (yearAgo_of today) + 1)"
    using year_span [OF assms(1)] assms(2) by auto
  then show ?thesis
    by (simp add: days_of_def eachDayOfInterval_def take_map take_days_from min_def)
qed

lemma weeks_of_flat:
  "(\<forall>w \<in> set (weeks_of today). length w = 7) \<and>
   (\<exists>k<7. concat (weeks_of today) =
      replicate (getDay (yearAgo_of today)) None @ map Some (days_of today) @ replicate k None)"
  unfolding weeks_of_def
  by (rule build_weeks_flat) (use getDay_less [of "yearAgo_of today"] in simp)

lemma weeks_of_nonempty: "valid_date today \<Longrightarrow> weeks_of today \<noteq> []"
  unfolding weeks_of_def using length_days_of [of today]
  by (intro build_weeks_nonempty) auto

text \<open>The shape of the grid: its rows are the slices of the padded list of days.\<close>

lemma weeks_of_shape:
  assumes v: "valid_date today"
  defines "p \<equiv> getDay (yearAgo_of today)"
  defines "ds \<equiv> days_of today"
  defines "ws \<equiv> weeks_of today"
  shows "\<exists>k<7. 7 * length ws = p + length ds + k \<and>
     hd ws = replicate p None @ map Some (take (7 - p) ds) \<and>
     last ws = map Some (drop (length ds + k - 7) ds) @ replicate k None \<and>
     (\<forall>i. 0 < i \<and> i + 1 < length ws \<longrightarrow> ws ! i = map Some (take 7 (drop (7 * i - p) ds)))"
proof -
  have len7: "\<forall>w \<in> set ws. length w = 7"
    using weeks_of_flat [of today] by (simp add: ws_def)
  obtain k where k: "k < 7"
    and flat: "concat ws = replicate p None @ map Some ds @ replicate k None"
    using weeks_of_flat [of today] unfolding ws_def p_def ds_def by blast
  have p: "p < 7" by (simp add: p_def getDay_less)
  have n: "366 \<le> length ds" using length_days_of [OF v] by (auto simp: ds_def)
  have ne: "ws \<noteq> []" using weeks_of_nonempty [OF v] by (simp add: ws_def)
  have total: "7 * length ws = p + length ds + k"
    using length_concat_rows [OF len7] by (simp add: flat)
  have row: "ws ! i = take 7 (drop (7 * i) (concat ws))" if "i < length ws" for i
    using nth_rows [OF len7 that] .
  have "hd ws = take 7 (concat ws)"
    using row [of 0] ne by (simp add: hd_conv_nth)
  then have first: "hd ws = replicate p None @ map Some (take (7 - p) ds)"
    using p n by (simp add: flat take_map)
  have "last ws = take 7 (drop (7 * (length ws - 1)) (concat ws))"
    using row [of "length ws - 1"] ne by (simp add: last_conv_nth)
  moreover have "7 * (length ws - 1) = p + (length ds + k - 7)"
    using total n by simp
  ultimately have "last ws = take 7 (drop (length ds + k - 7) (map Some ds @ replicate k None))"
    by (simp add: flat)
  then have final: "last ws = map Some (drop (length ds + k - 7) ds) @ replicate k None"
    using k n by (simp add: drop_map)
  have inner: "ws ! i = map Some (take 7 (drop (7 * i - p) ds))" if "0 < i \<and> i + 1 < length ws" for i
  proof -
    have "7 * i + 7 \<le> p + length ds" using that total k by simp
    moreover have "p \<le> 7 * i" using that p by simp
    ultimately show ?thesis
      using that row [of i] by (simp add: flat take_map drop_map)
  qed
  show ?thesis using k total first final inner by blast
qed

lemma days_from_nth:
  "valid_date d \<Longrightarrow> i < n \<Longrightarrow>
     valid_date (days_from n d ! i) \<and> day_number (days_from n d ! i) = day_number d + int i"
proof (induction n arbitrary: d i)
  case 0
  then show ?case by simp
next
  case (Suc n)
  show ?case
  proof (cases i)
    case 0
    then show ?thesis using Suc.prems by simp
  next
    case (Suc j)
    then have "valid_date (days_from n (next_day d) ! j) \<and>
        day_number (days_from n (next_day d) ! j) = day_number (next_day d) + int j"
      using Suc.prems by (intro Suc.IH valid_next_day) auto
    then show ?thesis
      using Suc Suc.prems by (simp add: day_number_next_day)
  qed
qed

lemma days_from_increasing:
  "valid_date d \<Longrightarrow> sorted_wrt (\<lambda>a b. day_number a < day_number b) (days_from n d)"
  by (simp add: sorted_wrt_iff_nth_less length_days_from days_from_nth)

lemma takeWhile_padding:
  "xs \<noteq> [] \<Longrightarrow> takeWhile (\<lambda>s. s = None) (replicate p None @ map Some xs) = replicate p None"
proof -
  assume "xs \<noteq> []"
  then have "takeWhile (\<lambda>s. s = None) (map Some xs) = []" by (cases xs) simp_all
  moreover have "takeWhile (\<lambda>s. s = None) (replicate p None @ map Some xs) =
      replicate p None @ takeWhile (\<lambda>s. s = None) (map Some xs)"
    by (rule takeWhile_append2) simp
  ultimately show ?thesis by simp
qed

lemma filter_padding:
  "filter (\<lambda>s. s \<noteq> None) (replicate p None @ map Some xs @ replicate k None) = map Some xs"
  by (simp add: filter_map comp_def)

text \<open>The first week of the grid on 15 March 2024.\<close>

lemma first_week_2024_03_15:
  "valid_date \<lparr>year = 2024, month = 2, day = 15\<rparr> \<and>
   yearAgo_of \<lparr>year = 2024, month = 2, day = 15\<rparr> = \<lparr>year = 2023, month = 2, day = 15\<rparr> \<and>
   getDay \<lparr>year = 2023, month = 2, day = 15\<rparr> = 3 \<and>
   hd (weeks_of \<lparr>year = 2024, month = 2, day = 15\<rparr>) =
     [None, None, None, Some ''2023-03-15'', Some ''2023-03-16'', Some ''2023-03-17'',
      Some ''2023-03-18'']"
proof -
  let ?D = "\<lparr>year = 2024, month = 2, day = 15\<rparr>"
  have v: "valid_date ?D" by (simp add: date_eval)
  have ya: "yearAgo_of ?D = \<lparr>year = 2023, month = 2, day = 15\<rparr>" by (simp add: date_eval)
  have p: "getDay \<lparr>year = 2023, month = 2, day = 15\<rparr> = 3" by (simp add: date_eval)
  have "days_from 4 \<lparr>year = 2023, month = 2, day = 15\<rparr> =
      [\<lparr>year = 2023, month = 2, day = 15\<rparr>, \<lparr>year = 2023, month = 2, day = 16\<rparr>,
       \<lparr>year = 2023, month = 2, day = 17\<rparr>, \<lparr>year = 2023, month = 2, day = 18\<rparr>]"
    by (simp add: days_from_numeral next_day_def days_in_month_def)
  then have "take 4 (days_of ?D) = [''2023-03-15'', ''2023-03-16'', ''2023-03-17'', ''2023-03-18'']"
    using take_days_of [OF v, of 4] by (simp add: ya format_eval)
  moreover have "hd (weeks_of ?D) = replicate 3 None @ map Some (take (7 - 3) (days_of ?D))"
    using weeks_of_shape [OF v] by (auto simp: ya p)
  ultimately show ?thesis using v ya p by (simp add: numeral_eq_Suc)
qed

text \<open>
  C3: whatever today is, every week of the grid has exactly 7 slots, and so the
  number of slots of the grid is a multiple of 7.
\<close>

theorem weeks_have_seven_slots:
  "(\<forall>w \<in> set (weeks_of today). length w = 7) \<and> 7 dvd length (concat (weeks_of today))"
proof -
  have a: "\<forall>w \<in> set (weeks_of today). length w = 7"
    using weeks_of_flat by blast
  then have "length (concat (weeks_of today)) = 7 * length (weeks_of today)"
    by (rule length_concat_rows)
  then show ?thesis using a by simp
qed

theorem weeks_have_seven_slots_witness:
  "[None, None, None, Some ''2023-03-15'', Some ''2023-03-16'', Some ''2023-03-17'',
    Some ''2023-03-18''] \<in> set (weeks_of \<lparr>year = 2024, month = 2, day = 15\<rparr>) \<and>
   length [None, None, None, Some ''2023-03-15'', Some ''2023-03-16'', Some ''2023-03-17'',
    Some ''2023-03-18''] = 7 \<and>
   7 dvd length (concat (weeks_of \<lparr>year = 2024, month = 2, day = 15\<rparr>))"
proof -
  let ?D = "\<lparr>year = 2024, month = 2, day = 15\<rparr>"
  have "weeks_of ?D \<noteq> []"
    using first_week_2024_03_15 weeks_of_nonempty [of ?D] by blast
  then have "hd (weeks_of ?D) \<in> set (weeks_of ?D)"
    by (rule hd_in_set)
  then show ?thesis
    using weeks_have_seven_slots [of ?D] first_week_2024_03_15 by simp
qed

text \<open>
  C4: the first week begins with as many empty slots as the weekday index of the
  day the window starts on (0 for Sunday to 6 for Saturday), and the slot after
  them is a day; for 15 March 2024 the window starts on Wednesday 15 March 2023 and
  the first week begins with 3 empty slots.
\<close>

theorem leading_padding_is_weekday:
  assumes "valid_date today"
  shows "length (takeWhile (\<lambda>s. s = None) (hd (weeks_of today))) = getDay (yearAgo_of today) \<and>
         getDay (yearAgo_of today) \<le> 6"
proof -
  have p: "getDay (yearAgo_of today) < 7" by (rule getDay_less)
  have "366 \<le> length (days_of today)" using length_days_of [OF assms] by auto
  then have "take (7 - getDay (yearAgo_of today)) (days_of today) \<noteq> []" using p by auto
  moreover have "hd (weeks_of today) = replicate (getDay (yearAgo_of today)) None @
      map Some (take (7 - getDay (yearAgo_of today)) (days_of today))"
    using weeks_of_shape [OF assms] by blast
  ultimately show ?thesis using p by (simp add: takeWhile_padding)
qed

theorem leading_padding_is_weekday_witness:
  "valid_date \<lparr>year = 2024, month = 2, day = 15\<rparr> \<and>
   yearAgo_of \<lparr>year = 2024, month = 2, day = 15\<rparr> = \<lparr>year = 2023, month = 2, day = 15\<rparr> \<and>
   getDay \<lparr>year = 2023, month = 2, day = 15\<rparr> = 3 \<and>
   getDay \<lparr>year = 2023, month = 2, day = 12\<rparr> = 0 \<and>
   getDay \<lparr>year = 2023, month = 2, day = 18\<rparr> = 6 \<and>
   length (takeWhile (\<lambda>s. s = None) (hd (weeks_of \<lparr>year = 2024, month = 2, day = 15\<rparr>))) = 3"
proof -
  have v: "valid_date \<lparr>year = 2024, month = 2, day = 15\<rparr>"
    using first_week_2024_03_15 by blast
  have "getDay \<lparr>year = 2023, month = 2, day = 12\<rparr> = 0"
    "getDay \<lparr>year = 2023, month = 2, day = 18\<rparr> = 6"
    by (simp_all add: date_eval)
  then show ?thesis
    using leading_padding_is_weekday [OF v] first_week_2024_03_15 by simp
qed

text \<open>
  C9: the first week is the leading empty slots followed by days only, the last
  week is days followed by fewer than 7 empty slots, the weeks between the two hold
  days only, and the slots that are not empty, read week after week, are the keys of
  the enumerated days in their order, which is the order of time.
\<close>

theorem empty_slots_only_at_ends:
  assumes "valid_date today"
  shows "\<exists>k<7.
     hd (weeks_of today) = replicate (getDay (yearAgo_of today)) None @
        map Some (take (7 - getDay (yearAgo_of today)) (days_of today)) \<and>
     last (weeks_of today) =
        map Some (drop (length (days_of today) + k - 7) (days_of today)) @ replicate k None \<and>
     (\<forall>i. 0 < i \<and> i + 1 < length (weeks_of today) \<longrightarrow> None \<notin> set (weeks_of today ! i)) \<and>
     53 \<le> length (weeks_of today) \<and>
     map the (filter (\<lambda>s. s \<noteq> None) (concat (weeks_of today))) = days_of today \<and>
     days_of today = map format_yyyy_MM_dd (eachDayOfInterval (yearAgo_of today) today) \<and>
     sorted_wrt (\<lambda>a b. day_number a < day_number b) (eachDayOfInterval (yearAgo_of today) today)"
proof -
  let ?p = "getDay (yearAgo_of today)" and ?ds = "days_of today" and ?ws = "weeks_of today"
  obtain k where k: "k < 7" and total: "7 * length ?ws = ?p + length ?ds + k"
    and first: "hd ?ws = replicate ?p None @ map Some (take (7 - ?p) ?ds)"
    and final: "last ?ws = map Some (drop (length ?ds + k - 7) ?ds) @ replicate k None"
    and inner: "\<forall>i. 0 < i \<and> i + 1 < length ?ws \<longrightarrow> ?ws ! i = map Some (take 7 (drop (7 * i - ?p) ?ds))"
    using weeks_of_shape [OF assms] by blast
  have real: "\<forall>i. 0 < i \<and> i + 1 < length ?ws \<longrightarrow> None \<notin> set (?ws ! i)"
    using inner by auto
  have "366 \<le> length ?ds" using length_days_of [OF assms] by auto
  then have many: "53 \<le> length ?ws" using total by simp
  obtain k' where "concat ?ws = replicate ?p None @ map Some ?ds @ replicate k' None"
    using weeks_of_flat [of today] by blast
  then have "filter (\<lambda>s. s \<noteq> None) (concat ?ws) = map Some ?ds"
    by (simp only: filter_padding)
  then have kept: "map the (filter (\<lambda>s. s \<noteq> None) (concat ?ws)) = ?ds"
    by (simp add: comp_def)
  have chrono: "sorted_wrt (\<lambda>a b. day_number a < day_number b) (eachDayOfInterval (yearAgo_of today) today)"
    unfolding eachDayOfInterval_def by (rule days_from_increasing) (rule valid_yearAgo [OF assms])
  show ?thesis
    using k first final real many kept chrono by (auto simp: days_of_def)
qed

theorem empty_slots_only_at_ends_witness:
  "valid_date \<lparr>year = 2024, month = 2, day = 15\<rparr> \<and>
   hd (weeks_of \<lparr>year = 2024, month = 2, day = 15\<rparr>) =
     [None, None, None, Some ''2023-03-15'', Some ''2023-03-16'', Some ''2023-03-17'',
      Some ''2023-03-18''] \<and>
   0 < (1::nat) \<and> 1 + 1 < length (weeks_of \<lparr>year = 2024, month = 2, day = 15\<rparr>) \<and>
   None \<notin> set (weeks_of \<lparr>year = 2024, month = 2, day = 15\<rparr> ! 1) \<and>
   map the (filter (\<lambda>s. s \<noteq> None) (concat (weeks_of \<lparr>year = 2024, month = 2, day = 15\<rparr>))) =
     days_of \<lparr>year = 2024, month = 2, day = 15\<rparr>"
proof -
  have v: "valid_date \<lparr>year = 2024, month = 2, day = 15\<rparr>"
    using first_week_2024_03_15 by blast
  show ?thesis
    using empty_slots_only_at_ends [OF v] first_week_2024_03_15 by auto
qed

subsection \<open>Day numbers determine dates\<close>

lemma DayFromYear_mono: "y \<le> y' \<Longrightarrow> DayFromYear y \<le> DayFromYear y'"
proof (induction y' rule: int_ge_induct)
  case base
  show ?case by simp
next
  case (step i)
  have "DayFromYear i \<le> DayFromYear (i + 1)"
    by (simp add: DayFromYear_succ)
  with step show ?case by simp
qed

lemma days_before_month_mono: "m \<le> m' \<Longrightarrow> days_before_month y m \<le> days_before_month y m'"
proof -
  assume "m \<le> m'"
  then have "[0..<m'] = [0..<m] @ [m..<m']"
    by (metis le_add_diff_inverse upt_add_eq_append zero_le)
  then show ?thesis by (simp add: days_before_month_def)
qed

lemma day_in_year:
  assumes "valid_date d"
  shows "1 \<le> days_before_month (year d) (month d) + day d"
    and "days_before_month (year d) (month d) + day d \<le> days_before_month (year d) 12"
proof -
  show "1 \<le> days_before_month (year d) (month d) + day d"
    using assms by (simp add: valid_date_def)
  have "days_before_month (year d) (month d) + day d \<le> days_before_month (year d) (Suc (month d))"
    using assms by (simp add: valid_date_def days_before_month_Suc)
  also have "\<dots> \<le> days_before_month (year d) 12"
    using assms by (intro days_before_month_mono) (simp add: valid_date_def)
  finally show "days_before_month (year d) (month d) + day d \<le> days_before_month (year d) 12" .
qed

lemma day_number_bounds:
  assumes "valid_date d"
  shows "DayFromYear (year d) \<le> day_number d" and "day_number d < DayFromYear (year d + 1)"
proof -
  show "DayFromYear (year d) \<le> day_number d"
    using day_in_year(1) [OF assms] by (simp add: day_number_def)
  have "int (days_before_month (year d) (month d) + day d) \<le> int (days_before_month (year d) 12)"
    using day_in_year(2) [OF assms] by (simp only: of_nat_le_iff)
  then show "day_number d < DayFromYear (year d + 1)"
    by (simp add: day_number_def DayFromYear_succ days_before_month_12 split: if_splits)
qed

lemma year_le_of_day_number:
  assumes "valid_date a" "valid_date b" "day_number a \<le> day_number b"
  shows "year a \<le> year b"
proof (rule ccontr)
  assume "\<not> year a \<le> year b"
  then have "year b + 1 \<le> year a" by simp
  then have "DayFromYear (year b + 1) \<le> DayFromYear (year a)" by (rule DayFromYear_mono)
  then show False
    using day_number_bounds(2) [OF assms(2)] day_number_bounds(1) [OF assms(1)] assms(3) by simp
qed

lemma day_number_inj:
  assumes a: "valid_date a" and b: "valid_date b" and eq: "day_number a = day_number b"
  shows "a = b"
proof -
  have y: "year a = year b"
    using year_le_of_day_number [OF a b] year_le_of_day_number [OF b a] eq by simp
  then have s: "days_before_month (year a) (month a) + day a =
      days_before_month (year a) (month b) + day b"
    using eq by (simp add: day_number_def)
  have m: "month a = month b"
  proof (rule ccontr)
    assume ne: "month a \<noteq> month b"
    have *: False
      if "valid_date c" "valid_date e" "year c = year e" "month c < month e"
        "days_before_month (year c) (month c) + day c = days_before_month (year c) (month e) + day e"
      for c e
    proof -
      have "days_before_month (year c) (month c) + day c \<le> days_before_month (year c) (Suc (month c))"
        using that(1) by (simp add: valid_date_def days_before_month_Suc)
      also have "\<dots> \<le> days_before_month (year c) (month e)"
        using that(4) by (intro days_before_month_mono) simp
      also have "\<dots> < days_before_month (year c) (month e) + day e"
        using that(2) by (simp add: valid_date_def)
      finally show False using that(5) by simp
    qed
    show False
    proof (cases "month a < month b")
      case True
      then show False using * [OF a b y True s] by simp
    next
      case False
      then have "month b < month a" using ne by simp
      then show False using * [OF b a y [symmetric]] s y by simp
    qed
  qed
  have "day a = day b" using s m by simp
  then show ?thesis using y m by simp
qed

lemma set_days_from:
  assumes "valid_date s"
  shows "set (days_from n s) =
     {d. valid_date d \<and> day_number s \<le> day_number d \<and> day_number d < day_number s + int n}"
proof (intro set_eqI iffI)
  fix d
  assume "d \<in> set (days_from n s)"
  then obtain i where "i < n" "d = days_from n s ! i"
    by (auto simp: in_set_conv_nth length_days_from)
  then show "d \<in> {d. valid_date d \<and> day_number s \<le> day_number d \<and> day_number d < day_number s + int n}"
    using days_from_nth [OF assms, of i n] by simp
next
  fix d
  assume "d \<in> {d. valid_date d \<and> day_number s \<le> day_number d \<and> day_number d < day_number s + int n}"
  then have d: "valid_date d" "day_number s \<le> day_number d" "day_number d < day_number s + int n"
    by simp_all
  define i where "i = nat (day_number d - day_number s)"
  have i: "i < n" using d by (simp add: i_def)
  have "valid_date (days_from n s ! i)" "day_number (days_from n s ! i) = day_number d"
    using days_from_nth [OF assms i] d by (simp_all add: i_def)
  then have "days_from n s ! i = d" using d(1) by (intro day_number_inj)
  then show "d \<in> set (days_from n s)"
    using i by (metis length_days_from nth_mem)
qed

lemma set_eachDayOfInterval:
  assumes "valid_date s"
  shows "set (eachDayOfInterval s e) =
     {d. valid_date d \<and> day_number s \<le> day_number d \<and> day_number d \<le> day_number e}"
  unfolding eachDayOfInterval_def set_days_from [OF assms] by auto

lemma distinct_days_from: "valid_date s \<Longrightarrow> distinct (days_from n s)"
proof -
  assume "valid_date s"
  then have "sorted_wrt (\<lambda>a b. day_number a < day_number b) (days_from n s)"
    by (rule days_from_increasing)
  then have "sorted_wrt (\<lambda>a b. a \<noteq> b) (days_from n s)"
    by (rule sorted_wrt_mono_rel [rotated]) auto
  then show ?thesis by (simp add: distinct_conv_nth sorted_wrt_iff_nth_less) (metis nat_neq_iff)
qed

subsection \<open>Keys determine dates\<close>

lemma digit_cases: "n < 10 \<Longrightarrow> n \<in> {0, 1, 2, 3, 4, 5, 6, 7, 8, 9::nat}"
  by (simp only: insert_iff empty_iff) arith

lemma digit_char_value: "n < 10 \<Longrightarrow> digit_value (digit_char n) = n"
  by (drule digit_cases) (auto simp: digit_value_def digit_char_def)

lemma digit_char_not_dash: "n < 10 \<Longrightarrow> digit_char n \<noteq> CHR ''-''"
  by (drule digit_cases) (auto simp: digit_char_def)

lemma digits_no_dash: "CHR ''-'' \<notin> set (digits n)"
proof (induction n rule: digits.induct)
  case (1 n)
  show ?case
  proof (cases "n < 10")
    case True
    then show ?thesis using digit_char_not_dash [of n] by (auto simp: digits_small)
  next
    case False
    then show ?thesis
      using "1" digit_char_not_dash [of "n mod 10"] by (auto simp: digits_large)
  qed
qed

lemma decimal_value_snoc: "decimal_value (s @ [c]) = 10 * decimal_value s + digit_value c"
  by (simp add: decimal_value_def)

lemma decimal_value_digits: "decimal_value (digits n) = n"
proof (induction n rule: digits.induct)
  case (1 n)
  show ?case
  proof (cases "n < 10")
    case True
    then show ?thesis by (simp add: digits_small decimal_value_def digit_char_value)
  next
    case False
    then show ?thesis
      using "1" by (simp add: digits_large decimal_value_snoc digit_char_value)
  qed
qed

lemma decimal_value_zeros: "decimal_value (replicate k (CHR ''0'') @ s) = decimal_value s"
proof -
  have "foldl (\<lambda>a c. 10 * a + digit_value c) 0 (replicate k (CHR ''0'')) = 0"
    by (induction k) (simp_all add: digit_value_def)
  then show ?thesis by (simp add: decimal_value_def)
qed

lemma decimal_value_addLeadingZeros: "decimal_value (addLeadingZeros n k) = n"
  by (simp add: addLeadingZeros_def decimal_value_zeros decimal_value_digits Let_def)

lemma addLeadingZeros_no_dash: "CHR ''-'' \<notin> set (addLeadingZeros n k)"
  by (simp add: addLeadingZeros_def digits_no_dash Let_def)

lemma split_at_dash:
  assumes "CHR ''-'' \<notin> set a" "CHR ''-'' \<notin> set a'" "a @ CHR ''-'' # r = a' @ CHR ''-'' # r'"
  shows "a = a' \<and> r = r'"
proof -
  have "takeWhile (\<lambda>c. c \<noteq> CHR ''-'') (a @ CHR ''-'' # r) = a"
    using assms(1) by (auto simp: takeWhile_tail)
  moreover have "takeWhile (\<lambda>c. c \<noteq> CHR ''-'') (a' @ CHR ''-'' # r') = a'"
    using assms(2) by (auto simp: takeWhile_tail)
  ultimately show ?thesis using assms(3) by simp
qed

lemma format_yyyy_MM_dd_inj:
  assumes "format_yyyy_MM_dd a = format_yyyy_MM_dd b" "0 < year a" "0 < year b"
  shows "a = b"
proof -
  have e: "format_yyyy a @ CHR ''-'' # (format_MM a @ CHR ''-'' # format_dd a) =
      format_yyyy b @ CHR ''-'' # (format_MM b @ CHR ''-'' # format_dd b)"
    using assms(1) by (simp add: format_yyyy_MM_dd_def)
  have y: "format_yyyy a = format_yyyy b"
    and r: "format_MM a @ CHR ''-'' # format_dd a = format_MM b @ CHR ''-'' # format_dd b"
    using split_at_dash [OF _ _ e]
    by (simp_all add: format_yyyy_def addLeadingZeros_no_dash Let_def)
  have m: "format_MM a = format_MM b" and d: "format_dd a = format_dd b"
    using split_at_dash [OF _ _ r] by (simp_all add: format_MM_def addLeadingZeros_no_dash)
  have "decimal_value (format_yyyy a) = decimal_value (format_yyyy b)" using y by simp
  then have "year a = year b"
    using assms(2,3) by (simp add: format_yyyy_def decimal_value_addLeadingZeros Let_def)
  moreover have "decimal_value (format_MM a) = decimal_value (format_MM b)" using m by simp
  then have "month a = month b"
    by (simp add: format_MM_def decimal_value_addLeadingZeros)
  moreover have "decimal_value (format_dd a) = decimal_value (format_dd b)" using d by simp
  then have "day a = day b"
    by (simp add: format_dd_def decimal_value_addLeadingZeros)
  ultimately show ?thesis by simp
qed

subsection \<open>The days of the window\<close>

text \<open>
  The list is what the loop of the library builds: the start, then the days of the
  interval that begins on the following day, as long as the start is not after the end.
\<close>

lemma eachDayOfInterval_loop:
  assumes "valid_date s"
  shows "eachDayOfInterval s e =
     (if day_number s \<le> day_number e then s # eachDayOfInterval (next_day s) e else [])"
proof (cases "day_number s \<le> day_number e")
  case True
  then have "nat (day_number e - day_number s + 1) =
      Suc (nat (day_number e - day_number (next_day s) + 1))"
    by (simp add: day_number_next_day [OF assms])
  then show ?thesis using True by (simp add: eachDayOfInterval_def)
next
  case False
  then show ?thesis by (simp add: eachDayOfInterval_def)
qed

lemma window_ends:
  assumes "valid_date today"
  shows "hd (eachDayOfInterval (yearAgo_of today) today) = yearAgo_of today"
    and "last (eachDayOfInterval (yearAgo_of today) today) = today"
proof -
  let ?s = "yearAgo_of today"
  define n where "n = nat (day_number today - day_number ?s + 1)"
  have vs: "valid_date ?s" by (rule valid_yearAgo [OF assms])
  have n: "int n = day_number today - day_number ?s + 1" "0 < n"
    using year_span [OF assms] by (auto simp: n_def)
  then obtain k where k: "n = Suc k" by (cases n) auto
  show "hd (eachDayOfInterval ?s today) = ?s"
    by (simp add: eachDayOfInterval_def flip: n_def) (simp add: k)
  have "valid_date (days_from n ?s ! k)" "day_number (days_from n ?s ! k) = day_number today"
    using days_from_nth [OF vs, of k n] n k by simp_all
  then have "days_from n ?s ! k = today"
    using assms by (intro day_number_inj)
  moreover have "last (days_from n ?s) = days_from n ?s ! k"
    using k by (simp add: last_conv_nth length_days_from flip: length_0_conv)
  ultimately show "last (eachDayOfInterval ?s today) = today"
    by (simp add: eachDayOfInterval_def flip: n_def)
qed

lemma window_years_positive:
  assumes "valid_date today" "1 < year today" "d \<in> set (eachDayOfInterval (yearAgo_of today) today)"
  shows "0 < year d"
proof -
  have vs: "valid_date (yearAgo_of today)" by (rule valid_yearAgo [OF assms(1)])
  have "valid_date d" "day_number (yearAgo_of today) \<le> day_number d"
    using assms(3) by (simp_all add: set_eachDayOfInterval [OF vs])
  then have "year (yearAgo_of today) \<le> year d"
    using vs by (intro year_le_of_day_number)
  then show ?thesis using assms(2) by (simp add: yearAgo_eq [OF assms(1)])
qed

lemma distinct_days_of:
  assumes "valid_date today" "1 < year today"
  shows "distinct (days_of today)"
proof -
  have "distinct (eachDayOfInterval (yearAgo_of today) today)"
    unfolding eachDayOfInterval_def by (rule distinct_days_from) (rule valid_yearAgo [OF assms(1)])
  moreover have "inj_on format_yyyy_MM_dd (set (eachDayOfInterval (yearAgo_of today) today))"
    by (rule inj_onI) (use window_years_positive [OF assms] in \<open>auto intro: format_yyyy_MM_dd_inj\<close>)
  ultimately show ?thesis by (simp add: days_of_def distinct_map)
qed

lemma real_slots:
  "filter (\<lambda>s. s \<noteq> None) (concat (weeks_of today)) = map Some (days_of today)"
proof -
  obtain k where "concat (weeks_of today) =
      replicate (getDay (yearAgo_of today)) None @ map Some (days_of today) @ replicate k None"
    using weeks_of_flat [of today] by blast
  then show ?thesis by (simp only: filter_padding)
qed

text \<open>
  C5: the slots of the grid that are not empty hold, in order, the keys of the days
  from the day one year before today to today; these days are all the calendar days
  whose day number lies between the two, both ends included; there are 366 or 367
  of them; and no key stands in two slots. The year of today is taken to be after
  the year 1, so that both years of the window are printed as they are.
\<close>

theorem grid_days_are_the_window:
  assumes "valid_date today" "1 < year today"
  shows "map the (filter (\<lambda>s. s \<noteq> None) (concat (weeks_of today))) =
           map format_yyyy_MM_dd (eachDayOfInterval (yearAgo_of today) today) \<and>
         set (eachDayOfInterval (yearAgo_of today) today) =
           {d. valid_date d \<and> day_number (yearAgo_of today) \<le> day_number d \<and>
               day_number d \<le> day_number today} \<and>
         hd (eachDayOfInterval (yearAgo_of today) today) = yearAgo_of today \<and>
         last (eachDayOfInterval (yearAgo_of today) today) = today \<and>
         yearAgo_of today = \<lparr>year = year today - 1, month = month today,
           day = min (day today) (days_in_month (year today - 1) (month today))\<rparr> \<and>
         (length (filter (\<lambda>s. s \<noteq> None) (concat (weeks_of today))) = 366 \<or>
          length (filter (\<lambda>s. s \<noteq> None) (concat (weeks_of today))) = 367) \<and>
         distinct (filter (\<lambda>s. s \<noteq> None) (concat (weeks_of today)))"
proof (intro conjI)
  show "map the (filter (\<lambda>s. s \<noteq> None) (concat (weeks_of today))) =
           map format_yyyy_MM_dd (eachDayOfInterval (yearAgo_of today) today)"
    unfolding real_slots by (simp add: comp_def days_of_def)
  show "set (eachDayOfInterval (yearAgo_of today) today) =
           {d. valid_date d \<and> day_number (yearAgo_of today) \<le> day_number d \<and>
               day_number d \<le> day_number today}"
    by (rule set_eachDayOfInterval) (rule valid_yearAgo [OF assms(1)])
  show "hd (eachDayOfInterval (yearAgo_of today) today) = yearAgo_of today"
    by (rule window_ends(1) [OF assms(1)])
  show "last (eachDayOfInterval (yearAgo_of today) today) = today"
    by (rule window_ends(2) [OF assms(1)])
  show "yearAgo_of today = \<lparr>year = year today - 1, month = month today,
           day = min (day today) (days_in_month (year today - 1) (month today))\<rparr>"
    by (rule yearAgo_eq [OF assms(1)])
  show "length (filter (\<lambda>s. s \<noteq> None) (concat (weeks_of today))) = 366 \<or>
          length (filter (\<lambda>s. s \<noteq> None) (concat (weeks_of today))) = 367"
    unfolding real_slots using length_days_of [OF assms(1)] by simp
  show "distinct (filter (\<lambda>s. s \<noteq> None) (concat (weeks_of today)))"
    unfolding real_slots using distinct_days_of [OF assms] by (simp add: distinct_map)
qed

theorem grid_days_are_the_window_witness:
  "valid_date \<lparr>year = 2024, month = 2, day = 15\<rparr> \<and>
   1 < year \<lparr>year = 2024, month = 2, day = 15\<rparr> \<and>
   yearAgo_of \<lparr>year = 2024, month = 2, day = 15\<rparr> = \<lparr>year = 2023, month = 2, day = 15\<rparr> \<and>
   \<lparr>year = 2024, month = 1, day = 29\<rparr> \<in>
     set (eachDayOfInterval (yearAgo_of \<lparr>year = 2024, month = 2, day = 15\<rparr>)
            \<lparr>year = 2024, month = 2, day = 15\<rparr>) \<and>
   length (filter (\<lambda>s. s \<noteq> None) (concat (weeks_of \<lparr>year = 2024, month = 2, day = 15\<rparr>))) = 367 \<and>
   distinct (filter (\<lambda>s. s \<noteq> None) (concat (weeks_of \<lparr>year = 2024, month = 2, day = 15\<rparr>)))"
proof -
  let ?D = "\<lparr>year = 2024, month = 2, day = 15\<rparr>"
  have v: "valid_date ?D" and y: "1 < year ?D" by (simp_all add: date_eval)
  have ya: "yearAgo_of ?D = \<lparr>year = 2023, month = 2, day = 15\<rparr>" by (simp add: date_eval)
  have leap: "valid_date \<lparr>year = 2024, month = 1, day = 29\<rparr> \<and>
      day_number \<lparr>year = 2023, month = 2, day = 15\<rparr> \<le> day_number \<lparr>year = 2024, month = 1, day = 29\<rparr> \<and>
      day_number \<lparr>year = 2024, month = 1, day = 29\<rparr> \<le> day_number ?D"
    by (simp add: date_eval)
  have n: "length (days_of ?D) = 367"
    by (simp add: days_of_def eachDayOfInterval_def length_days_from ya) (simp add: date_eval)
  have len: "length (filter (\<lambda>s. s \<noteq> None) (concat (weeks_of ?D))) = 367"
    unfolding real_slots using n by simp
  have "\<lparr>year = 2024, month = 1, day = 29\<rparr> \<in> set (eachDayOfInterval (yearAgo_of ?D) ?D)"
    using grid_days_are_the_window [OF v y] leap by (simp only: ya) simp
  moreover have "distinct (filter (\<lambda>s. s \<noteq> None) (concat (weeks_of ?D)))"
    using grid_days_are_the_window [OF v y] by blast
  ultimately show ?thesis using v y ya len by blast
qed

subsection \<open>The month labels\<close>

lemma length_monthLabels: "length (monthLabels_of today) = 13"
  by (simp add: monthLabels_of_def)

lemma upt_13: "[0..<13] = [0, 1, 2, 3, 4, 5, 6, 7, 8, 9, 10, 11, 12::nat]"
  by (simp add: upt_rec)

lemma next_days_within:
  "1 + k \<le> days_in_month y m \<Longrightarrow>
     (next_day ^^ k) \<lparr>year = y, month = m, day = 1\<rparr> = \<lparr>year = y, month = m, day = 1 + k\<rparr>"
  by (induction k) (simp_all add: next_day_def)

lemma next_days_overflow:
  assumes "m < 11" "days_in_month y m < 1 + k" "1 + k - days_in_month y m \<le> days_in_month y (Suc m)"
  shows "(next_day ^^ k) \<lparr>year = y, month = m, day = 1\<rparr> =
         \<lparr>year = y, month = Suc m, day = 1 + k - days_in_month y m\<rparr>"
proof -
  obtain n where n: "days_in_month y m = Suc n"
    using days_in_month_pos [of y m] by (cases "days_in_month y m") auto
  define j where "j = k - Suc n"
  have k: "k = j + Suc n" using assms(2) by (simp add: j_def n)
  have "(next_day ^^ n) \<lparr>year = y, month = m, day = 1\<rparr> = \<lparr>year = y, month = m, day = 1 + n\<rparr>"
    by (intro next_days_within) (simp add: n)
  then have "(next_day ^^ Suc n) \<lparr>year = y, month = m, day = 1\<rparr> = \<lparr>year = y, month = Suc m, day = 1\<rparr>"
    using assms(1) by (simp add: next_day_def n)
  moreover have "(next_day ^^ j) \<lparr>year = y, month = Suc m, day = 1\<rparr> = \<lparr>year = y, month = Suc m, day = 1 + j\<rparr>"
    using assms(2,3) by (intro next_days_within) (simp add: j_def n)
  ultimately have "(next_day ^^ k) \<lparr>year = y, month = m, day = 1\<rparr> = \<lparr>year = y, month = Suc m, day = 1 + j\<rparr>"
    unfolding k funpow_add by simp
  then show ?thesis using assms(2) by (simp add: j_def n)
qed

text \<open>\<open>setMonth\<close> in closed form, for a day of the month from 1 to 31.\<close>

lemma setMonth_closed:
  assumes "1 \<le> day d" "day d \<le> 31"
  shows "setMonth d mm =
     (if day d \<le> days_in_month (year d + mm div 12) (nat (mm mod 12))
      then \<lparr>year = year d + mm div 12, month = nat (mm mod 12), day = day d\<rparr>
      else \<lparr>year = year d + mm div 12, month = Suc (nat (mm mod 12)),
            day = day d - days_in_month (year d + mm div 12) (nat (mm mod 12))\<rparr>)"
proof (cases "day d \<le> days_in_month (year d + mm div 12) (nat (mm mod 12))")
  case True
  then show ?thesis
    using assms next_days_within [of "day d - 1" "year d + mm div 12" "nat (mm mod 12)"]
    by (simp add: setMonth_def)
next
  case False
  have short: "nat (mm mod 12) < 11"
  proof (rule ccontr)
    assume "\<not> nat (mm mod 12) < 11"
    then have "days_in_month (year d + mm div 12) (nat (mm mod 12)) = 31"
      by (simp add: days_in_month_def)
    then show False using False assms by simp
  qed
  have "day d - days_in_month (year d + mm div 12) (nat (mm mod 12)) \<le> 3"
    using assms days_in_month_pos [of "year d + mm div 12" "nat (mm mod 12)"] by simp
  then have "1 + (day d - 1) - days_in_month (year d + mm div 12) (nat (mm mod 12))
      \<le> days_in_month (year d + mm div 12) (Suc (nat (mm mod 12)))"
    using assms days_in_month_pos [of "year d + mm div 12" "Suc (nat (mm mod 12))"] by simp
  then show ?thesis
    using False assms next_days_overflow [OF short, of "year d + mm div 12" "day d - 1"]
    by (simp add: setMonth_def)
qed

text \<open>
  The thirteen dates of the loop on 31 January 2024: the window starts on
  31 January 2023, and \<open>setMonth\<close> carries the 31st of a shorter month over into
  the month after it.
\<close>

lemma label_dates_2024_01_31:
  "yearAgo_of \<lparr>year = 2024, month = 0, day = 31\<rparr> = \<lparr>year = 2023, month = 0, day = 31\<rparr> \<and>
   map (\<lambda>i. setMonth \<lparr>year = 2023, month = 0, day = 31\<rparr>
               (int (month \<lparr>year = 2023, month = 0, day = 31\<rparr>) + int i)) [0..<13] =
   [\<lparr>year = 2023, month = 0, day = 31\<rparr>, \<lparr>year = 2023, month = 2, day = 3\<rparr>,
    \<lparr>year = 2023, month = 2, day = 31\<rparr>, \<lparr>year = 2023, month = 4, day = 1\<rparr>,
    \<lparr>year = 2023, month = 4, day = 31\<rparr>, \<lparr>year = 2023, month = 6, day = 1\<rparr>,
    \<lparr>year = 2023, month = 6, day = 31\<rparr>, \<lparr>year = 2023, month = 7, day = 31\<rparr>,
    \<lparr>year = 2023, month = 9, day = 1\<rparr>, \<lparr>year = 2023, month = 9, day = 31\<rparr>,
    \<lparr>year = 2023, month = 11, day = 1\<rparr>, \<lparr>year = 2023, month = 11, day = 31\<rparr>,
    \<lparr>year = 2024, month = 0, day = 31\<rparr>]"
  by (simp add: upt_13 setMonth_closed date_eval)

text \<open>
  C6: on 31 January 2024 the loop gives thirteen labels, but their keys are not
  pairwise different: February, April, June, September and November are passed
  over and the keys of March, May, July, October and December each come twice.
\<close>

theorem monthLabels_keys_2024_01_31:
  "valid_date \<lparr>year = 2024, month = 0, day = 31\<rparr> \<and>
   length (monthLabels_of \<lparr>year = 2024, month = 0, day = 31\<rparr>) = 13 \<and>
   map key (monthLabels_of \<lparr>year = 2024, month = 0, day = 31\<rparr>) =
     [''Jan 2023'', ''Mar 2023'', ''Mar 2023'', ''May 2023'', ''May 2023'', ''Jul 2023'',
      ''Jul 2023'', ''Aug 2023'', ''Oct 2023'', ''Oct 2023'', ''Dec 2023'', ''Dec 2023'',
      ''Jan 2024''] \<and>
   \<not> distinct (map key (monthLabels_of \<lparr>year = 2024, month = 0, day = 31\<rparr>))"
proof -
  let ?D = "\<lparr>year = 2024, month = 0, day = 31\<rparr>"
  have v: "valid_date ?D" by (simp add: date_eval)
  have "map key (monthLabels_of ?D) =
      map format_MMM_yyyy (map (\<lambda>i. setMonth (yearAgo_of ?D) (int (month (yearAgo_of ?D)) + int i)) [0..<13])"
    by (simp add: monthLabels_of_def month_label_at_def Let_def comp_def)
  also have "\<dots> = [''Jan 2023'', ''Mar 2023'', ''Mar 2023'', ''May 2023'', ''May 2023'', ''Jul 2023'',
      ''Jul 2023'', ''Aug 2023'', ''Oct 2023'', ''Oct 2023'', ''Dec 2023'', ''Dec 2023'',
      ''Jan 2024'']"
    using label_dates_2024_01_31 by (simp add: format_eval)
  finally have k: "map key (monthLabels_of ?D) =
     [''Jan 2023'', ''Mar 2023'', ''Mar 2023'', ''May 2023'', ''May 2023'', ''Jul 2023'',
      ''Jul 2023'', ''Aug 2023'', ''Oct 2023'', ''Oct 2023'', ''Dec 2023'', ''Dec 2023'',
      ''Jan 2024'']" .
  show ?thesis using v k by (simp add: length_monthLabels)
qed

subsection \<open>The local date of an instant\<close>

lemma DayFromYear_upper: "0 \<le> k \<Longrightarrow> DayFromYear (1970 + k) \<le> 366 * k"
proof (induction k rule: int_ge_induct)
  case base
  show ?case by (simp add: DayFromYear_def)
next
  case (step i)
  have "DayFromYear (1970 + i + 1) = DayFromYear (1970 + i) + (if is_leap (1970 + i) then 366 else 365)"
    by (rule DayFromYear_succ)
  then have "DayFromYear (1970 + i + 1) \<le> 366 * i + 366"
    using step.IH by (simp split: if_splits)
  moreover have "1970 + (i + 1) = 1970 + i + 1" by simp
  ultimately show ?case by (simp only:) simp
qed

lemma DayFromYear_lower: "k \<le> 0 \<Longrightarrow> DayFromYear (1970 + k) \<le> 365 * k"
proof (induction k rule: int_le_induct)
  case base
  show ?case by (simp add: DayFromYear_def)
next
  case (step i)
  have "DayFromYear (1970 + (i - 1) + 1) =
      DayFromYear (1970 + (i - 1)) + (if is_leap (1970 + (i - 1)) then 366 else 365)"
    by (rule DayFromYear_succ)
  moreover have "1970 + (i - 1) + 1 = 1970 + i" by simp
  ultimately have "DayFromYear (1970 + (i - 1)) + 365 \<le> DayFromYear (1970 + i)"
    by (simp only:) (simp split: if_splits)
  then show ?case using step.IH by simp
qed

lemma year_guess_le: "DayFromYear (year_guess n) \<le> n"
proof (cases "0 \<le> n")
  case True
  then have "0 \<le> n div 366" by simp
  then have "DayFromYear (1970 + n div 366) \<le> 366 * (n div 366)" by (rule DayFromYear_upper)
  also have "\<dots> \<le> n" by (simp add: minus_mod_eq_mult_div [symmetric])
  finally show ?thesis using True by (simp add: year_guess_def)
next
  case False
  then have "n div 365 < 0" by (simp add: neg_imp_zdiv_neg_iff)
  then have "n div 365 \<le> 0" by simp
  then have "DayFromYear (1970 + n div 365) \<le> 365 * (n div 365)" by (rule DayFromYear_lower)
  also have "\<dots> \<le> n" by (simp add: minus_mod_eq_mult_div [symmetric])
  finally show ?thesis using False by (simp add: year_guess_def)
qed

lemma year_from_correct:
  "DayFromYear y \<le> n \<Longrightarrow>
     DayFromYear (year_from n y) \<le> n \<and> n < DayFromYear (year_from n y + 1)"
proof (induction n y rule: year_from.induct)
  case (1 n y)
  show ?case
  proof (cases "DayFromYear (y + 1) \<le> n")
    case True
    then show ?thesis using "1.IH" by (simp add: year_from.simps [of n y])
  next
    case False
    then show ?thesis using "1.prems" by (simp add: year_from.simps [of n y])
  qed
qed

lemma month_from_correct:
  "m \<le> 11 \<Longrightarrow> days_before_month y m + r < days_before_month y 12 \<Longrightarrow>
     fst (month_from y m r) < 12 \<and>
     snd (month_from y m r) < days_in_month y (fst (month_from y m r)) \<and>
     days_before_month y (fst (month_from y m r)) + snd (month_from y m r) =
       days_before_month y m + r"
proof (induction y m r rule: month_from.induct)
  case (1 y m r)
  show ?case
  proof (cases "m < 11 \<and> days_in_month y m \<le> r")
    case True
    then have "m + 1 \<le> 11"
      and "days_before_month y (m + 1) + (r - days_in_month y m) < days_before_month y 12"
      using "1.prems" by (simp_all add: days_before_month_Suc)
    then show ?thesis
      using "1.IH" True by (simp add: month_from.simps [of y m r] days_before_month_Suc)
  next
    case False
    have "r < days_in_month y m"
    proof (cases "m < 11")
      case True
      then show ?thesis using False by simp
    next
      case False
      then have "m = 11" using "1.prems" by simp
      then show ?thesis
        using "1.prems" days_before_month_Suc [of y 11] by simp
    qed
    then show ?thesis using False "1.prems" by (simp add: month_from.simps [of y m r])
  qed
qed

text \<open>The conversion gives a date that exists, and the date of the given day number.\<close>

lemma civil_from_days_correct:
  "valid_date (civil_from_days n) \<and> day_number (civil_from_days n) = n"
proof -
  define y where "y = year_from n (year_guess n)"
  define r where "r = nat (n - DayFromYear y)"
  have y: "DayFromYear y \<le> n" "n < DayFromYear (y + 1)"
    using year_from_correct [OF year_guess_le, of n] by (simp_all add: y_def)
  have r: "int r = n - DayFromYear y" "r < days_before_month y 12"
    using y by (auto simp: r_def DayFromYear_succ days_before_month_12 split: if_splits)
  have m: "fst (month_from y 0 r) < 12"
    "snd (month_from y 0 r) < days_in_month y (fst (month_from y 0 r))"
    "days_before_month y (fst (month_from y 0 r)) + snd (month_from y 0 r) = r"
    using month_from_correct [of 0 y r] r(2) by (simp_all add: days_before_month_def)
  have c: "civil_from_days n =
      \<lparr>year = y, month = fst (month_from y 0 r), day = snd (month_from y 0 r) + 1\<rparr>"
    by (simp add: civil_from_days_def Let_def case_prod_beta flip: y_def r_def)
  have "int (days_before_month y (fst (month_from y 0 r))) + int (snd (month_from y 0 r)) = int r"
    using m(3) by (simp only: flip: of_nat_add)
  then show ?thesis
    using m r(1) by (simp add: c valid_date_def day_number_def)
qed

lemma civil_from_days_day_number: "valid_date d \<Longrightarrow> civil_from_days (day_number d) = d"
  using civil_from_days_correct [of "day_number d"] by (intro day_number_inj) simp_all

lemma valid_local_date: "valid_date (local_date tz t)"
  by (simp add: local_date_def civil_from_days_correct)

subsection \<open>Completions of one day\<close>

text \<open>
  C7: two completions on the same local calendar day give a table with the single
  entry of that day, with count 2; any non-empty sequence of completions that all
  fall on one day gives the single entry of that day with the length of the
  sequence as its count; and in any sequence of completions (of years of the common
  era, which \<open>yyyy\<close> prints as they are) no key has two entries and the count
  under the key of a day is the number of completions on that day.
\<close>

theorem same_day_single_entry:
  "(local_date tz (completedAt a) = local_date tz (completedAt b) \<longrightarrow>
      computeCompletionCounts tz [a, b] =
        [(format_yyyy_MM_dd (local_date tz (completedAt a)), 2)]) \<and>
   (cs \<noteq> [] \<and> (\<forall>c \<in> set cs. local_date tz (completedAt c) = d) \<longrightarrow>
      computeCompletionCounts tz cs = [(format_yyyy_MM_dd d, length cs)]) \<and>
   distinct (map fst (computeCompletionCounts tz es)) \<and>
   ((\<forall>c \<in> set es. 0 < year (local_date tz (completedAt c))) \<longrightarrow>
      (\<forall>c \<in> set es.
         map_of (computeCompletionCounts tz es) (format_yyyy_MM_dd (local_date tz (completedAt c))) =
           Some (length (filter (\<lambda>c'. local_date tz (completedAt c') = local_date tz (completedAt c)) es))))"
proof (intro conjI impI ballI)
  assume "local_date tz (completedAt a) = local_date tz (completedAt b)"
  then show "computeCompletionCounts tz [a, b] =
        [(format_yyyy_MM_dd (local_date tz (completedAt a)), 2)]"
    by (simp add: computeCompletionCounts_def count_step_def or_zero_simps Let_def)
next
  assume h: "cs \<noteq> [] \<and> (\<forall>c \<in> set cs. local_date tz (completedAt c) = d)"
  have step: "\<And>n c. local_date tz (completedAt c) = d \<Longrightarrow>
      count_step tz [(format_yyyy_MM_dd d, n)] c = [(format_yyyy_MM_dd d, Suc n)]"
    by (simp add: count_step_def or_zero_simps Let_def)
  have run: "\<And>n. \<forall>c \<in> set xs. local_date tz (completedAt c) = d \<Longrightarrow>
      foldl (count_step tz) [(format_yyyy_MM_dd d, n)] xs = [(format_yyyy_MM_dd d, n + length xs)]" for xs
    by (induction xs) (simp_all add: step)
  obtain c xs where cs: "cs = c # xs" using h by (cases cs) auto
  have "count_step tz [] c = [(format_yyyy_MM_dd d, 1)]"
    using h cs by (simp add: count_step_def or_zero_simps Let_def)
  then show "computeCompletionCounts tz cs = [(format_yyyy_MM_dd d, length cs)]"
    using h cs run [of xs 1] by (simp add: computeCompletionCounts_def)
next
  show "distinct (map fst (computeCompletionCounts tz es))"
    unfolding computeCompletionCounts_def by (rule distinct_fold_counts) simp
next
  fix c
  assume pos: "\<forall>c \<in> set es. 0 < year (local_date tz (completedAt c))" and c: "c \<in> set es"
  have "(key_of tz c' = key_of tz c) = (local_date tz (completedAt c') = local_date tz (completedAt c))"
    if "c' \<in> set es" for c'
    using that pos c format_yyyy_MM_dd_inj [of "local_date tz (completedAt c')" "local_date tz (completedAt c)"]
    by (auto simp: key_of_def)
  then have "filter (\<lambda>c'. key_of tz c' = key_of tz c) es =
      filter (\<lambda>c'. local_date tz (completedAt c') = local_date tz (completedAt c)) es"
    by (intro filter_cong) auto
  then show "map_of (computeCompletionCounts tz es) (format_yyyy_MM_dd (local_date tz (completedAt c))) =
           Some (length (filter (\<lambda>c'. local_date tz (completedAt c') = local_date tz (completedAt c)) es))"
    using c map_of_counts [of tz es "key_of tz c"] by (simp add: key_of_def)
qed

theorem same_day_single_entry_witness:
  "local_date (\<lambda>t. 7200000) (completedAt \<lparr>habitId = ''h1'', completedAt = 1710500000000\<rparr>) =
   local_date (\<lambda>t. 7200000) (completedAt \<lparr>habitId = ''h2'', completedAt = 1710510000000\<rparr>) \<and>
   (1710500000000::int) \<noteq> 1710510000000 \<and>
   [\<lparr>habitId = ''h1'', completedAt = 1710500000000\<rparr>,
    \<lparr>habitId = ''h2'', completedAt = 1710510000000\<rparr>] \<noteq> [] \<and>
   local_date (\<lambda>t. 7200000) (completedAt \<lparr>habitId = ''h1'', completedAt = 1710500000000\<rparr>) =
     \<lparr>year = 2024, month = 2, day = 15\<rparr> \<and>
   local_date (\<lambda>t. 7200000) (completedAt \<lparr>habitId = ''h2'', completedAt = 1710510000000\<rparr>) =
     \<lparr>year = 2024, month = 2, day = 15\<rparr> \<and>
   0 < year \<lparr>year = 2024, month = 2, day = 15\<rparr> \<and>
   computeCompletionCounts (\<lambda>t. 7200000)
       [\<lparr>habitId = ''h1'', completedAt = 1710500000000\<rparr>,
        \<lparr>habitId = ''h2'', completedAt = 1710510000000\<rparr>] = [(''2024-03-15'', 2)] \<and>
   map_of (computeCompletionCounts (\<lambda>t. 7200000)
       [\<lparr>habitId = ''h1'', completedAt = 1710500000000\<rparr>,
        \<lparr>habitId = ''h2'', completedAt = 1710510000000\<rparr>]) ''2024-03-15'' = Some 2"
proof -
  let ?a = "\<lparr>habitId = ''h1'', completedAt = 1710500000000\<rparr>"
  let ?b = "\<lparr>habitId = ''h2'', completedAt = 1710510000000\<rparr>"
  let ?tz = "\<lambda>t::int. 7200000::int"
  have same: "local_date ?tz (completedAt ?a) = local_date ?tz (completedAt ?b)"
    by (simp add: local_date_2024_03_15)
  have k: "format_yyyy_MM_dd (local_date ?tz (completedAt ?a)) = ''2024-03-15''"
    by (simp add: local_date_2024_03_15 format_eval)
  have day: "\<forall>c \<in> set [?a, ?b]. local_date ?tz (completedAt c) = \<lparr>year = 2024, month = 2, day = 15\<rparr> \<and>
      0 < year (local_date ?tz (completedAt c))"
    by (simp add: local_date_2024_03_15)
  have pair: "computeCompletionCounts ?tz [?a, ?b] = [(''2024-03-15'', 2)]"
    using same k same_day_single_entry [of ?tz ?a ?b] by simp
  have "map_of (computeCompletionCounts ?tz [?a, ?b])
      (format_yyyy_MM_dd (local_date ?tz (completedAt ?a))) =
      Some (length (filter (\<lambda>c'. local_date ?tz (completedAt c') = local_date ?tz (completedAt ?a)) [?a, ?b]))"
    using day same_day_single_entry [of ?tz ?a ?b "[?a, ?b]" "\<lparr>year = 2024, month = 2, day = 15\<rparr>" "[?a, ?b]"]
    by simp
  moreover have "format_yyyy_MM_dd \<lparr>year = 2024, month = 2, day = 15\<rparr> = ''2024-03-15''"
    by (simp add: format_eval)
  ultimately have "map_of (computeCompletionCounts ?tz [?a, ?b]) ''2024-03-15'' = Some 2"
    by (simp add: local_date_2024_03_15)
  then show ?thesis using same pair by (simp add: local_date_2024_03_15)
qed

subsection \<open>Month labels of a window that starts early in the month\<close>

lemma length_month_names: "k < 12 \<Longrightarrow> length (month_names ! k) = 3"
  by (drule month_cases) (auto simp: month_names_def)

lemma distinct_month_names: "distinct month_names"
  by (simp add: month_names_def)

lemma format_MMM_yyyy_inj:
  assumes "format_MMM_yyyy a = format_MMM_yyyy b" "month a < 12" "month b < 12"
    "0 < year a" "0 < year b"
  shows "month a = month b \<and> year a = year b"
proof -
  have e: "month_names ! month a @ CHR '' '' # format_yyyy a =
      month_names ! month b @ CHR '' '' # format_yyyy b"
    using assms(1) by (simp add: format_MMM_yyyy_def format_MMM_def)
  have l: "length (month_names ! month a) = length (month_names ! month b)"
    using assms(2,3) by (simp add: length_month_names)
  have n: "month_names ! month a = month_names ! month b" and y: "format_yyyy a = format_yyyy b"
    using e l by simp_all
  have "month a = month b"
    using n assms(2,3) distinct_month_names
    by (simp add: nth_eq_iff_index_eq month_names_def)
  moreover have "decimal_value (format_yyyy a) = decimal_value (format_yyyy b)" using y by simp
  then have "year a = year b"
    using assms(4,5) by (simp add: format_yyyy_def decimal_value_addLeadingZeros Let_def)
  ultimately show ?thesis by simp
qed

text \<open>
  Where the window starts on one of the first 28 days of a month, no month of the
  span is too short for the day, the thirteen dates are one in each month, and the
  keys are pairwise different.
\<close>

lemma monthLabels_keys_distinct:
  assumes "valid_date today" "day today \<le> 28" "1 < year today"
  shows "distinct (map key (monthLabels_of today))"
proof -
  define y m d where "y = year today - 1" and "m = month today" and "d = day today"
  have m: "m < 12" and d: "1 \<le> d" "d \<le> 28"
    using assms by (simp_all add: valid_date_def m_def d_def)
  have ya: "yearAgo_of today = \<lparr>year = y, month = m, day = d\<rparr>"
    using assms(2) days_in_month_pos [of "year today - 1" "month today"]
    by (simp add: yearAgo_eq [OF assms(1)] y_def m_def d_def min_def)
  define at where "at i = \<lparr>year = y + (int m + int i) div 12,
      month = nat ((int m + int i) mod 12), day = d\<rparr>" for i :: nat
  have sm: "setMonth (yearAgo_of today) (int (month (yearAgo_of today)) + int i) = at i" for i
    using d days_in_month_pos [of "y + (int m + int i) div 12" "nat ((int m + int i) mod 12)"]
    by (simp add: ya setMonth_closed at_def)
  have keys: "map key (monthLabels_of today) = map (\<lambda>i. format_MMM_yyyy (at i)) [0..<13]"
    by (simp add: monthLabels_of_def month_label_at_def Let_def sm comp_def)
  have "inj_on (\<lambda>i. format_MMM_yyyy (at i)) (set [0..<13])"
  proof (rule inj_onI)
    fix i j
    assume "format_MMM_yyyy (at i) = format_MMM_yyyy (at j)"
    moreover have "month (at k) < 12" "0 < year (at k)" for k
    proof -
      show "month (at k) < 12" by (simp add: at_def nat_less_iff)
      have "0 \<le> (int m + int k) div 12" by simp
      then show "0 < year (at k)" using assms(3) by (simp add: at_def y_def)
    qed
    ultimately have "month (at i) = month (at j) \<and> year (at i) = year (at j)"
      by (intro format_MMM_yyyy_inj)
    moreover have "0 \<le> (int m + int k) mod 12" for k by simp
    ultimately have "(int m + int i) mod 12 = (int m + int j) mod 12"
      "(int m + int i) div 12 = (int m + int j) div 12"
      by (simp_all add: at_def nat_eq_iff)
    then have "int m + int i = int m + int j"
      by (metis mult_div_mod_eq)
    then show "i = j" by simp
  qed
  then show ?thesis by (simp add: keys distinct_map)
qed

end
